theory Spec2Isabelle
  imports Complex_Main
begin

section \<open>Data model of \<^verbatim>\<open>gossip_algorithm.py\<close>\<close>

text \<open>
  The three epidemic states of the enum \<^verbatim>\<open>NodeState\<close>.
\<close>

datatype NodeState = SUSCEPTIBLE | INFECTED | REMOVED

text \<open>
  The dataclass \<^verbatim>\<open>Message\<close>. The field \<^verbatim>\<open>id\<close> is called \<open>msg_id\<close> here
  (\<open>id\<close> is the identity function of HOL). Floats are modelled as reals.
\<close>

record Message =
  msg_id :: string
  content :: string
  timestamp :: real
  source_node :: int
  hop_count :: int

text \<open>
  A \<^verbatim>\<open>Message\<close> is a mutable object that several nodes may hold at once, so the
  model keeps message objects in a store and refers to them by their position in it.
  The store only grows: it is the list of all message objects constructed so far.
\<close>

type_synonym ref = nat

text \<open>
  The class \<^verbatim>\<open>GossipNode\<close>. The fields \<^verbatim>\<open>x\<close> and \<^verbatim>\<open>y\<close> are called
  \<open>pos_x\<close> and \<open>pos_y\<close>. The dictionary \<^verbatim>\<open>messages\<close> is an association list in
  insertion order; the set \<^verbatim>\<open>neighbors\<close> is a list without duplicates.
\<close>

record GossipNode =
  node_id :: int
  pos_x :: real
  pos_y :: real
  state :: NodeState
  messages :: "(string \<times> ref) list"
  neighbors :: "int list"
  infection_probability :: real
  recovery_probability :: real
  is_active :: bool
  message_history :: "ref list"

text \<open>
  The attributes of \<^verbatim>\<open>GossipSimulator\<close>. The dictionary \<^verbatim>\<open>nodes\<close> is an
  association list in insertion order, which is the order in which Python iterates
  over \<^verbatim>\<open>self.nodes.values()\<close>.
\<close>

record GossipSimulator =
  num_nodes :: int
  width :: int
  height :: int
  nodes :: "(int \<times> GossipNode) list"
  running :: bool
  step_count :: int
  message_counter :: int
  gossip_fanout :: int
  transmission_probability :: real
  max_hop_count :: int
  simulation_speed :: real

text \<open>
  What the code reads from the Python runtime: the store of message objects, the
  global generator of the module \<^verbatim>\<open>random\<close> (a stream of raw draws, read from
  position 0 and shifted by one at every draw) and the clock behind \<^verbatim>\<open>time.time()\<close>
  (a stream of successive readings).
\<close>

record runtime =
  heap :: "Message list"
  rand :: "nat \<Rightarrow> nat"
  clock :: "nat \<Rightarrow> real"

datatype error = ValueError | KeyError | IndexError | RecursionError | TypeError | AttributeError

text \<open>
  The result of a call that may raise: Python keeps every mutation made before the
  exception, so \<open>Raised\<close> carries the state reached as well.
\<close>

datatype 'a outcome = Returned 'a | Raised error 'a

fun after :: "'a outcome \<Rightarrow> 'a" where
  "after (Returned a) = a"
| "after (Raised e a) = a"

fun is_raised :: "'a outcome \<Rightarrow> bool" where
  "is_raised (Returned a) = False"
| "is_raised (Raised e a) = True"

section \<open>The module \<^verbatim>\<open>random\<close> and the clock\<close>

text \<open>
  \<^verbatim>\<open>random.random()\<close> returns a multiple of \<open>2^-53\<close> in \<open>[0, 1)\<close>.
\<close>

definition random_random :: "runtime \<Rightarrow> real \<times> runtime" where
  "random_random rt =
     (real (rand rt 0 mod 2 ^ 53) / 2 ^ 53, rt\<lparr>rand := (\<lambda>i. rand rt (Suc i))\<rparr>)"

definition random_uniform :: "real \<Rightarrow> real \<Rightarrow> runtime \<Rightarrow> real \<times> runtime" where
  "random_uniform a b rt = (case random_random rt of (u, rt') \<Rightarrow> (a + (b - a) * u, rt'))"

text \<open>
  \<^verbatim>\<open>random.choice(seq)\<close> raises IndexError on an empty sequence and otherwise
  returns the element at a drawn position.
\<close>

definition random_choice :: "'a list \<Rightarrow> runtime \<Rightarrow> error + ('a \<times> runtime)" where
  "random_choice xs rt =
     (if xs = [] then Inl IndexError
      else Inr (xs ! (rand rt 0 mod length xs), rt\<lparr>rand := (\<lambda>i. rand rt (Suc i))\<rparr>))"

text \<open>
  \<^verbatim>\<open>random.sample(population, k)\<close> raises ValueError unless \<open>0 \<le> k \<le> len(population)\<close>
  and otherwise returns \<open>k\<close> elements at distinct positions, in the order drawn: each
  draw picks a position of what is left of the population. Every selection Python
  can return is the result of some stream of draws.
\<close>

fun pick :: "nat \<Rightarrow> 'a list \<Rightarrow> runtime \<Rightarrow> 'a list \<times> runtime" where
  "pick 0 xs rt = ([], rt)"
| "pick (Suc k) xs rt =
     (if xs = [] then ([], rt)
      else let i = rand rt 0 mod length xs;
               rt1 = rt\<lparr>rand := (\<lambda>j. rand rt (Suc j))\<rparr>
           in case pick k (take i xs @ drop (Suc i) xs) rt1 of
                (ys, rt2) \<Rightarrow> (xs ! i # ys, rt2))"

definition random_sample :: "'a list \<Rightarrow> int \<Rightarrow> runtime \<Rightarrow> error + ('a list \<times> runtime)" where
  "random_sample xs k rt =
     (if k < 0 \<or> int (length xs) < k then Inl ValueError else Inr (pick (nat k) xs rt))"

definition time_time :: "runtime \<Rightarrow> real \<times> runtime" where
  "time_time rt = (clock rt 0, rt\<lparr>clock := (\<lambda>i. clock rt (Suc i))\<rparr>)"

section \<open>\<^verbatim>\<open>GossipNode\<close>\<close>

definition GossipNode_init :: "int \<Rightarrow> real \<Rightarrow> real \<Rightarrow> GossipNode" where
  "GossipNode_init i px py =
     \<lparr>node_id = i, pos_x = px, pos_y = py, state = SUSCEPTIBLE, messages = [],
      neighbors = [], infection_probability = 1 / 10, recovery_probability = 5 / 100,
      is_active = True, message_history = []\<rparr>"

definition add_neighbor :: "int \<Rightarrow> GossipNode \<Rightarrow> GossipNode" where
  "add_neighbor j n =
     (if j \<in> set (neighbors n) then n else n\<lparr>neighbors := neighbors n @ [j]\<rparr>)"

definition remove_neighbor :: "int \<Rightarrow> GossipNode \<Rightarrow> GossipNode" where
  "remove_neighbor j n = n\<lparr>neighbors := filter (\<lambda>k. k \<noteq> j) (neighbors n)\<rparr>"

definition infect :: "GossipNode \<Rightarrow> GossipNode" where
  "infect n = (if state n = SUSCEPTIBLE then n\<lparr>state := INFECTED\<rparr> else n)"

text \<open>
  \<^verbatim>\<open>recover\<close>: the \<^verbatim>\<open>and\<close> of the source draws a random number only when the
  node is INFECTED.
\<close>

definition recover :: "GossipNode \<Rightarrow> runtime \<Rightarrow> GossipNode \<times> runtime" where
  "recover n rt =
     (if state n = INFECTED
      then case random_random rt of
             (u, rt') \<Rightarrow> (if u < recovery_probability n then n\<lparr>state := REMOVED\<rparr> else n, rt')
      else (n, rt))"

text \<open>
  \<^verbatim>\<open>receive_message\<close> gets a reference to a message object; it reads the
  identifier of the object from the store.
\<close>

definition receive_message :: "ref \<Rightarrow> GossipNode \<Rightarrow> runtime \<Rightarrow> GossipNode \<times> runtime" where
  "receive_message r n rt =
     (let mid = msg_id (heap rt ! r)
      in if mid \<notin> fst ` set (messages n)
         then let n1 = n\<lparr>messages := messages n @ [(mid, r)],
                          message_history := message_history n @ [r]\<rparr>
              in if state n1 = SUSCEPTIBLE
                 then case random_random rt of
                        (u, rt') \<Rightarrow> (if u < infection_probability n1 then infect n1 else n1, rt')
                 else (n1, rt)
         else (n, rt))"

section \<open>\<^verbatim>\<open>GossipSimulator\<close>: start, reset, statistics\<close>

definition reset_node :: "GossipNode \<Rightarrow> GossipNode" where
  "reset_node n = n\<lparr>state := SUSCEPTIBLE, messages := [], message_history := []\<rparr>"

text \<open>
  Applies \<open>f\<close> to the node object stored under key \<open>k\<close> (the in-place mutation of
  \<^verbatim>\<open>self.nodes[k]\<close>); a dictionary has one entry per key.
\<close>

fun map_node :: "int \<Rightarrow> (GossipNode \<Rightarrow> GossipNode) \<Rightarrow> (int \<times> GossipNode) list
    \<Rightarrow> (int \<times> GossipNode) list" where
  "map_node k f [] = []"
| "map_node k f (p # ps) = (if fst p = k then (k, f (snd p)) # ps else p # map_node k f ps)"

fun infect_initial :: "int list \<Rightarrow> (int \<times> GossipNode) list \<Rightarrow> (int \<times> GossipNode) list" where
  "infect_initial [] ns = ns"
| "infect_initial (i # is) ns =
     infect_initial is (if i \<in> fst ` set ns then map_node i infect ns else ns)"

text \<open>
  \<^verbatim>\<open>start_gossip(initial_infected)\<close>; \<open>None\<close> is the default argument, which
  stands for \<open>[0]\<close>.
\<close>

definition start_gossip :: "int list option \<Rightarrow> GossipSimulator \<Rightarrow> GossipSimulator" where
  "start_gossip initial_infected s =
     (let ids = (case initial_infected of None \<Rightarrow> [0] | Some l \<Rightarrow> l);
          ns = map (\<lambda>(k, n). (k, reset_node n)) (nodes s)
      in s\<lparr>nodes := infect_initial ids ns, step_count := 0, running := True\<rparr>)"

definition reset_simulation :: "GossipSimulator \<Rightarrow> GossipSimulator" where
  "reset_simulation s =
     s\<lparr>running := False, step_count := 0, message_counter := 0,
       nodes := map (\<lambda>(k, n). (k, reset_node n)) (nodes s)\<rparr>"

text \<open>The dictionary returned by \<^verbatim>\<open>get_statistics\<close>.\<close>

record Statistics =
  stats_step :: int
  stats_susceptible :: int
  stats_infected :: int
  stats_removed :: int
  stats_total_messages :: int
  stats_running :: bool

definition count_state :: "NodeState \<Rightarrow> (int \<times> GossipNode) list \<Rightarrow> int" where
  "count_state st ns = sum_list (map (\<lambda>p. 1) (filter (\<lambda>p. state (snd p) = st) ns))"

definition get_statistics :: "GossipSimulator \<Rightarrow> Statistics" where
  "get_statistics s =
     \<lparr>stats_step = step_count s,
      stats_susceptible = count_state SUSCEPTIBLE (nodes s),
      stats_infected = count_state INFECTED (nodes s),
      stats_removed = count_state REMOVED (nodes s),
      stats_total_messages = sum_list (map (\<lambda>p. int (length (messages (snd p)))) (nodes s)),
      stats_running = running s\<rparr>"

section \<open>\<^verbatim>\<open>GossipSimulator\<close>: stepping\<close>

text \<open>Python's \<^verbatim>\<open>str\<close> of an integer, as the f-strings of the source use it.\<close>

definition digit_char :: "nat \<Rightarrow> char" where
  "digit_char d = char_of (48 + d)"

fun str_nat :: "nat \<Rightarrow> string" where
  "str_nat n = (if n < 10 then [digit_char n] else str_nat (n div 10) @ [digit_char (n mod 10)])"

definition str_int :: "int \<Rightarrow> string" where
  "str_int i = (if i < 0 then CHR ''-'' # str_nat (nat (- i)) else str_nat (nat i))"

text \<open>
  The message built by \<^verbatim>\<open>_gossip_step\<close> from the current message counter, the
  identifier of the gossiping node and the clock reading.
\<close>

definition new_message :: "GossipSimulator \<Rightarrow> int \<Rightarrow> real \<Rightarrow> Message" where
  "new_message s nid t =
     \<lparr>msg_id = ''msg_'' @ str_int (message_counter s) @ ''_'' @ str_int nid,
      content = ''Gossip from node '' @ str_int nid,
      timestamp = t, source_node = nid, hop_count = 0\<rparr>"

text \<open>
  Runs a method that draws random numbers on the node object stored under key \<open>k\<close>.
\<close>

fun modify_node :: "int \<Rightarrow> (GossipNode \<Rightarrow> runtime \<Rightarrow> GossipNode \<times> runtime)
    \<Rightarrow> (int \<times> GossipNode) list \<Rightarrow> runtime \<Rightarrow> (int \<times> GossipNode) list \<times> runtime" where
  "modify_node k f [] rt = ([], rt)"
| "modify_node k f (p # ps) rt =
     (if fst p = k then (case f (snd p) rt of (n', rt') \<Rightarrow> ((k, n') # ps, rt'))
      else (case modify_node k f ps rt of (ps', rt') \<Rightarrow> (p # ps', rt')))"

text \<open>
  One pass of the loop \<^verbatim>\<open>for target_id in targets\<close> of \<^verbatim>\<open>_gossip_step\<close>; \<open>r\<close> is
  the message object of the round. The conjunction of the source is evaluated from
  left to right: no number is drawn for a target that is not a key of \<^verbatim>\<open>nodes\<close>, and
  one is drawn even when the hop count has reached the limit.
\<close>

definition deliver_one :: "int \<Rightarrow> ref \<Rightarrow> GossipSimulator \<Rightarrow> runtime
    \<Rightarrow> GossipSimulator \<times> runtime" where
  "deliver_one target_id r s rt =
     (if target_id \<in> fst ` set (nodes s)
      then case random_random rt of
        (u, rt1) \<Rightarrow>
          if u < transmission_probability s \<and> hop_count (heap rt1 ! r) < max_hop_count s
          then let m = heap rt1 ! r;
                   rt2 = rt1\<lparr>heap := (heap rt1)[r := m\<lparr>hop_count := hop_count m + 1\<rparr>]\<rparr>
               in case modify_node target_id (receive_message r) (nodes s) rt2 of
                    (ns, rt3) \<Rightarrow> (s\<lparr>nodes := ns\<rparr>, rt3)
          else (s, rt1)
      else (s, rt))"

fun deliver :: "int list \<Rightarrow> ref \<Rightarrow> GossipSimulator \<Rightarrow> runtime \<Rightarrow> GossipSimulator \<times> runtime" where
  "deliver [] r s rt = (s, rt)"
| "deliver (t # ts) r s rt = (case deliver_one t r s rt of (s', rt') \<Rightarrow> deliver ts r s' rt')"

text \<open>
  \<^verbatim>\<open>_gossip_step(node)\<close>. The node object is given by its key \<open>k\<close> in \<^verbatim>\<open>nodes\<close>;
  \<^verbatim>\<open>step\<close> only passes keys of the dictionary. \<^verbatim>\<open>random.sample\<close> raises ValueError
  when the fanout is negative, before any message is built.
\<close>

definition gossip_step :: "int \<Rightarrow> GossipSimulator \<Rightarrow> runtime
    \<Rightarrow> (GossipSimulator \<times> runtime) outcome" where
  "gossip_step k s rt =
     (case map_of (nodes s) k of
        None \<Rightarrow> Returned (s, rt)
      | Some node \<Rightarrow>
          if neighbors node = [] then Returned (s, rt)
          else let available_neighbors = neighbors node;
                   num_targets = min (gossip_fanout s) (int (length available_neighbors))
               in case random_sample available_neighbors num_targets rt of
                    Inl e \<Rightarrow> Raised e (s, rt)
                  | Inr (targets, rt1) \<Rightarrow>
                      (case time_time rt1 of
                         (t, rt2) \<Rightarrow>
                           let message = new_message s (node_id node) t;
                               r = length (heap rt2);
                               rt3 = rt2\<lparr>heap := heap rt2 @ [message]\<rparr>;
                               s1 = s\<lparr>message_counter := message_counter s + 1\<rparr>
                           in Returned (deliver targets r s1 rt3)))"

fun gossip_all :: "int list \<Rightarrow> GossipSimulator \<Rightarrow> runtime
    \<Rightarrow> (GossipSimulator \<times> runtime) outcome" where
  "gossip_all [] s rt = Returned (s, rt)"
| "gossip_all (k # ks) s rt =
     (case gossip_step k s rt of
        Raised e w \<Rightarrow> Raised e w
      | Returned (s', rt') \<Rightarrow> gossip_all ks s' rt')"

fun recover_all :: "(int \<times> GossipNode) list \<Rightarrow> runtime \<Rightarrow> (int \<times> GossipNode) list \<times> runtime" where
  "recover_all [] rt = ([], rt)"
| "recover_all (p # ps) rt =
     (case recover (snd p) rt of
        (n', rt1) \<Rightarrow> (case recover_all ps rt1 of (ps', rt2) \<Rightarrow> ((fst p, n') # ps', rt2)))"

text \<open>
  \<^verbatim>\<open>step()\<close>. The list \<^verbatim>\<open>infected_nodes\<close> holds the node objects that are INFECTED
  when it is built, here by their keys.
\<close>

definition step :: "GossipSimulator \<Rightarrow> runtime \<Rightarrow> (GossipSimulator \<times> runtime) outcome" where
  "step s rt =
     (if \<not> running s then Returned (s, rt)
      else let s1 = s\<lparr>step_count := step_count s + 1\<rparr>;
               infected_nodes = map fst (filter (\<lambda>p. state (snd p) = INFECTED) (nodes s1))
           in if infected_nodes = [] then Returned (s1\<lparr>running := False\<rparr>, rt)
              else case gossip_all infected_nodes s1 rt of
                     Raised e w \<Rightarrow> Raised e w
                   | Returned (s2, rt2) \<Rightarrow>
                       (case recover_all (nodes s2) rt2 of
                          (ns, rt3) \<Rightarrow> Returned (s2\<lparr>nodes := ns\<rparr>, rt3)))"

text \<open>
  \<open>n\<close> calls of \<^verbatim>\<open>step()\<close> in a row; a caller that catches an exception of one call
  goes on with the state that call left.
\<close>

fun steps :: "nat \<Rightarrow> GossipSimulator \<Rightarrow> runtime \<Rightarrow> GossipSimulator \<times> runtime" where
  "steps 0 s rt = (s, rt)"
| "steps (Suc n) s rt = (case after (step s rt) of (s', rt') \<Rightarrow> steps n s' rt')"

section \<open>\<^verbatim>\<open>GossipSimulator\<close>: construction of the topology\<close>

text \<open>Python's \<^verbatim>\<open>range(n)\<close> and \<^verbatim>\<open>range(a, n)\<close> are \<open>[0..n - 1]\<close> and \<open>[a..n - 1]\<close>.\<close>

text \<open>The assignment \<^verbatim>\<open>d[k] = v\<close> to a dictionary.\<close>

fun dict_set :: "'k \<Rightarrow> 'v \<Rightarrow> ('k \<times> 'v) list \<Rightarrow> ('k \<times> 'v) list" where
  "dict_set k v [] = [(k, v)]"
| "dict_set k v (p # ps) = (if fst p = k then (k, v) # ps else p # dict_set k v ps)"

fun initialize_nodes_loop :: "int list \<Rightarrow> GossipSimulator \<Rightarrow> runtime
    \<Rightarrow> GossipSimulator \<times> runtime" where
  "initialize_nodes_loop [] s rt = (s, rt)"
| "initialize_nodes_loop (i # is) s rt =
     (case random_uniform 50 (real_of_int (width s - 50)) rt of
        (px, rt1) \<Rightarrow>
          (case random_uniform 50 (real_of_int (height s - 50)) rt1 of
             (py, rt2) \<Rightarrow>
               initialize_nodes_loop is
                 (s\<lparr>nodes := dict_set i (GossipNode_init i px py) (nodes s)\<rparr>) rt2))"

definition initialize_nodes :: "GossipSimulator \<Rightarrow> runtime \<Rightarrow> GossipSimulator \<times> runtime" where
  "initialize_nodes s rt = initialize_nodes_loop [0..num_nodes s - 1] s rt"

text \<open>
  The body of the double loop of \<^verbatim>\<open>_build_network_topology\<close>; a lookup
  \<^verbatim>\<open>self.nodes[i]\<close> of a missing key raises KeyError.
\<close>

definition connect_pair :: "real \<Rightarrow> int \<Rightarrow> int \<Rightarrow> (int \<times> GossipNode) list
    \<Rightarrow> error + (int \<times> GossipNode) list" where
  "connect_pair connection_radius i j ns =
     (case map_of ns i of
        None \<Rightarrow> Inl KeyError
      | Some node1 \<Rightarrow>
          (case map_of ns j of
             None \<Rightarrow> Inl KeyError
           | Some node2 \<Rightarrow>
               let distance = sqrt ((pos_x node1 - pos_x node2)\<^sup>2 + (pos_y node1 - pos_y node2)\<^sup>2)
               in if distance \<le> connection_radius
                  then Inr (map_node j (add_neighbor i) (map_node i (add_neighbor j) ns))
                  else Inr ns))"

fun connect_row :: "real \<Rightarrow> int \<Rightarrow> int list \<Rightarrow> (int \<times> GossipNode) list
    \<Rightarrow> error + (int \<times> GossipNode) list" where
  "connect_row cr i [] ns = Inr ns"
| "connect_row cr i (j # js) ns =
     (case connect_pair cr i j ns of Inl e \<Rightarrow> Inl e | Inr ns' \<Rightarrow> connect_row cr i js ns')"

fun connect_rows :: "real \<Rightarrow> int \<Rightarrow> int list \<Rightarrow> (int \<times> GossipNode) list
    \<Rightarrow> error + (int \<times> GossipNode) list" where
  "connect_rows cr n [] ns = Inr ns"
| "connect_rows cr n (i # is) ns =
     (case connect_row cr i [i + 1..n - 1] ns of
        Inl e \<Rightarrow> Inl e
      | Inr ns' \<Rightarrow> connect_rows cr n is ns')"

text \<open>
  The local function \<^verbatim>\<open>dfs\<close> of \<^verbatim>\<open>_ensure_connectivity\<close>, with its loop over the
  neighbours as a second function. The set \<^verbatim>\<open>visited\<close> is the list of visited nodes
  in the order of the visits. Python bounds the depth of the recursion: the first
  argument is the number of nested calls of \<^verbatim>\<open>dfs\<close> that the interpreter still
  allows, and a call beyond it raises RecursionError.
\<close>

fun dfs :: "nat \<Rightarrow> (int \<times> GossipNode) list \<Rightarrow> int list \<Rightarrow> int \<Rightarrow> error + int list"
  and dfs_neighbors :: "nat \<Rightarrow> (int \<times> GossipNode) list \<Rightarrow> int list \<Rightarrow> int list
    \<Rightarrow> error + int list" where
  "dfs 0 ns visited i = Inl RecursionError"
| "dfs (Suc d) ns visited i =
     (if i \<in> set visited then Inr visited
      else case map_of ns i of
             None \<Rightarrow> Inl KeyError
           | Some node \<Rightarrow> dfs_neighbors d ns (visited @ [i]) (neighbors node))"
| "dfs_neighbors d ns visited [] = Inr visited"
| "dfs_neighbors d ns visited (j # js) =
     (case dfs d ns visited j of
        Inl e \<Rightarrow> Inl e
      | Inr visited' \<Rightarrow> dfs_neighbors d ns visited' js)"

text \<open>\<^verbatim>\<open>visited.add(i)\<close> on the list that stands for the set.\<close>

definition set_add :: "'a \<Rightarrow> 'a list \<Rightarrow> 'a list" where
  "set_add i xs = (if i \<in> set xs then xs else xs @ [i])"

text \<open>
  The repair loop of \<^verbatim>\<open>_ensure_connectivity\<close> over the unvisited nodes.
\<close>

fun repair :: "int list \<Rightarrow> (int \<times> GossipNode) list \<Rightarrow> int list \<Rightarrow> runtime
    \<Rightarrow> error + ((int \<times> GossipNode) list \<times> runtime)" where
  "repair [] ns visited rt = Inr (ns, rt)"
| "repair (nid # rest) ns visited rt =
     (if visited \<noteq> []
      then case random_choice visited rt of
             Inl e \<Rightarrow> Inl e
           | Inr (target, rt1) \<Rightarrow>
               if nid \<notin> fst ` set ns then Inl KeyError
               else let ns1 = map_node nid (add_neighbor target) ns
                    in if target \<notin> fst ` set ns1 then Inl KeyError
                       else repair rest (map_node target (add_neighbor nid) ns1)
                              (set_add nid visited) rt1
      else repair rest ns visited rt)"

text \<open>
  \<^verbatim>\<open>_ensure_connectivity\<close>. The set \<^verbatim>\<open>unvisited\<close> is iterated in ascending order.
\<close>

definition ensure_connectivity :: "nat \<Rightarrow> GossipSimulator \<Rightarrow> runtime
    \<Rightarrow> error + (GossipSimulator \<times> runtime)" where
  "ensure_connectivity limit s rt =
     (case (if nodes s \<noteq> [] then dfs limit (nodes s) [] 0 else Inr []) of
        Inl e \<Rightarrow> Inl e
      | Inr visited \<Rightarrow>
          let unvisited = filter (\<lambda>i. i \<notin> set visited) [0..num_nodes s - 1]
          in case repair unvisited (nodes s) visited rt of
               Inl e \<Rightarrow> Inl e
             | Inr (ns, rt') \<Rightarrow> Inr (s\<lparr>nodes := ns\<rparr>, rt'))"

definition build_network_topology :: "nat \<Rightarrow> GossipSimulator \<Rightarrow> runtime
    \<Rightarrow> error + (GossipSimulator \<times> runtime)" where
  "build_network_topology limit s rt =
     (let connection_radius = real_of_int (min (width s) (height s)) * (15 / 100)
      in case connect_rows connection_radius (num_nodes s) [0..num_nodes s - 1] (nodes s) of
           Inl e \<Rightarrow> Inl e
         | Inr ns \<Rightarrow> ensure_connectivity limit (s\<lparr>nodes := ns\<rparr>) rt)"

text \<open>
  The constructor \<^verbatim>\<open>GossipSimulator(num_nodes, width, height)\<close>, with the depth of
  recursion that the interpreter allows to \<^verbatim>\<open>dfs\<close> as its first argument. An
  exception in the constructor leaves no object behind.
\<close>

definition GossipSimulator_init :: "nat \<Rightarrow> int \<Rightarrow> int \<Rightarrow> int \<Rightarrow> runtime
    \<Rightarrow> error + (GossipSimulator \<times> runtime)" where
  "GossipSimulator_init limit n w h rt =
     (let s0 = \<lparr>num_nodes = n, width = w, height = h, nodes = [], running = False,
                step_count = 0, message_counter = 0, gossip_fanout = 3,
                transmission_probability = 8 / 10, max_hop_count = 10,
                simulation_speed = 1\<rparr>
      in case initialize_nodes s0 rt of (s1, rt1) \<Rightarrow> build_network_topology limit s1 rt1)"

section \<open>\<^verbatim>\<open>GossipSimulator\<close>: parameters\<close>

text \<open>
  The values a caller passes in \<^verbatim>\<open>**kwargs\<close>; \<^verbatim>\<open>kwargs\<close> is the list of its
  items, one per key.
\<close>

datatype pyval = PyInt int | PyFloat real | PyBool bool | PyStr string

definition data_attributes :: "string list" where
  "data_attributes =
     [''num_nodes'', ''width'', ''height'', ''nodes'', ''running'', ''step_count'',
      ''message_counter'', ''gossip_fanout'', ''transmission_probability'',
      ''max_hop_count'', ''simulation_speed'']"

definition method_names :: "string list" where
  "method_names =
     [''_initialize_nodes'', ''_build_network_topology'', ''_ensure_connectivity'',
      ''start_gossip'', ''step'', ''_gossip_step'', ''get_statistics'',
      ''update_parameters'', ''reset_simulation'']"

text \<open>
  \<^verbatim>\<open>hasattr(self, key)\<close>: the attributes that the constructor sets, the methods of
  the class, and the attributes every Python object has, whose names start with two
  underscores (every such name is counted here).
\<close>

definition hasattr_sim :: "string \<Rightarrow> bool" where
  "hasattr_sim key \<longleftrightarrow>
     key \<in> set data_attributes \<or> key \<in> set method_names \<or> take 2 key = ''__''"

text \<open>
  \<^verbatim>\<open>setattr(self, key, value)\<close>. Python stores any value under any attribute; the
  fields of the record have the types the constructor gives them, so the result is
  \<open>None\<close> where the assignment leaves this model: a value of another type than the
  field's, the dictionary \<^verbatim>\<open>nodes\<close>, a method, a built-in attribute.
\<close>

definition setattr_sim :: "string \<Rightarrow> pyval \<Rightarrow> GossipSimulator \<Rightarrow> GossipSimulator option" where
  "setattr_sim key v s =
     (if key = ''num_nodes'' then (case v of PyInt i \<Rightarrow> Some (s\<lparr>num_nodes := i\<rparr>) | _ \<Rightarrow> None)
      else if key = ''width'' then (case v of PyInt i \<Rightarrow> Some (s\<lparr>width := i\<rparr>) | _ \<Rightarrow> None)
      else if key = ''height'' then (case v of PyInt i \<Rightarrow> Some (s\<lparr>height := i\<rparr>) | _ \<Rightarrow> None)
      else if key = ''running'' then (case v of PyBool b \<Rightarrow> Some (s\<lparr>running := b\<rparr>) | _ \<Rightarrow> None)
      else if key = ''step_count'' then
        (case v of PyInt i \<Rightarrow> Some (s\<lparr>step_count := i\<rparr>) | _ \<Rightarrow> None)
      else if key = ''message_counter'' then
        (case v of PyInt i \<Rightarrow> Some (s\<lparr>message_counter := i\<rparr>) | _ \<Rightarrow> None)
      else if key = ''gossip_fanout'' then
        (case v of PyInt i \<Rightarrow> Some (s\<lparr>gossip_fanout := i\<rparr>) | _ \<Rightarrow> None)
      else if key = ''transmission_probability'' then
        (case v of PyFloat x \<Rightarrow> Some (s\<lparr>transmission_probability := x\<rparr>) | _ \<Rightarrow> None)
      else if key = ''max_hop_count'' then
        (case v of PyInt i \<Rightarrow> Some (s\<lparr>max_hop_count := i\<rparr>) | _ \<Rightarrow> None)
      else if key = ''simulation_speed'' then
        (case v of PyFloat x \<Rightarrow> Some (s\<lparr>simulation_speed := x\<rparr>) | _ \<Rightarrow> None)
      else None)"

text \<open>The first loop of \<^verbatim>\<open>update_parameters\<close>.\<close>

fun set_attributes :: "(string \<times> pyval) list \<Rightarrow> GossipSimulator \<Rightarrow> GossipSimulator option" where
  "set_attributes [] s = Some s"
| "set_attributes (kv # kwargs) s =
     (if hasattr_sim (fst kv)
      then (case setattr_sim (fst kv) (snd kv) s of
              None \<Rightarrow> None
            | Some s' \<Rightarrow> set_attributes kwargs s')
      else set_attributes kwargs s)"

definition set_infection_probability :: "(string \<times> pyval) list \<Rightarrow> GossipSimulator
    \<Rightarrow> GossipSimulator option" where
  "set_infection_probability kwargs s =
     (case map_of kwargs ''infection_probability'' of
        None \<Rightarrow> Some s
      | Some (PyFloat x) \<Rightarrow>
          Some (s\<lparr>nodes := map (\<lambda>(k, n). (k, n\<lparr>infection_probability := x\<rparr>)) (nodes s)\<rparr>)
      | Some _ \<Rightarrow> None)"

definition set_recovery_probability :: "(string \<times> pyval) list \<Rightarrow> GossipSimulator
    \<Rightarrow> GossipSimulator option" where
  "set_recovery_probability kwargs s =
     (case map_of kwargs ''recovery_probability'' of
        None \<Rightarrow> Some s
      | Some (PyFloat x) \<Rightarrow>
          Some (s\<lparr>nodes := map (\<lambda>(k, n). (k, n\<lparr>recovery_probability := x\<rparr>)) (nodes s)\<rparr>)
      | Some _ \<Rightarrow> None)"

text \<open>
  \<^verbatim>\<open>update_parameters(**kwargs)\<close>. No statement of the method raises; \<open>Some s'\<close>
  is the state with which the call returns.
\<close>

definition update_parameters :: "(string \<times> pyval) list \<Rightarrow> GossipSimulator
    \<Rightarrow> GossipSimulator option" where
  "update_parameters kwargs s =
     (case set_attributes kwargs s of
        None \<Rightarrow> None
      | Some s1 \<Rightarrow>
          (case set_infection_probability kwargs s1 of
             None \<Rightarrow> None
           | Some s2 \<Rightarrow> set_recovery_probability kwargs s2))"

section \<open>Calls of the public operations\<close>

datatype call =
    StartGossip "int list option"
  | Step
  | ResetSimulation
  | UpdateParameters "(string \<times> pyval) list"

text \<open>
  One call on the engine: how it ends and in which state. \<open>None\<close> is a call of
  \<^verbatim>\<open>update_parameters\<close> outside the model.
\<close>

fun perform :: "call \<Rightarrow> GossipSimulator \<times> runtime
    \<Rightarrow> (GossipSimulator \<times> runtime) outcome option" where
  "perform (StartGossip ids) (s, rt) = Some (Returned (start_gossip ids s, rt))"
| "perform Step (s, rt) = Some (step s rt)"
| "perform ResetSimulation (s, rt) = Some (Returned (reset_simulation s, rt))"
| "perform (UpdateParameters kwargs) (s, rt) =
     (case update_parameters kwargs s of
        None \<Rightarrow> None
      | Some s' \<Rightarrow> Some (Returned (s', rt)))"

text \<open>
  A sequence of calls; after a call that raised, the caller goes on with the state
  the call left.
\<close>

fun run :: "call list \<Rightarrow> GossipSimulator \<times> runtime \<Rightarrow> (GossipSimulator \<times> runtime) option" where
  "run [] w = Some w"
| "run (c # cs) w = (case perform c w of None \<Rightarrow> None | Some out \<Rightarrow> run cs (after out))"

section \<open>An engine of two nodes\<close>

text \<open>
  The generator that always draws 0 and a clock that always reads 0; the engine
  that \<^verbatim>\<open>GossipSimulator(2, 800, 600)\<close> builds with them: both nodes at \<open>(50, 50)\<close>,
  each the neighbour of the other.
\<close>

definition example_runtime :: runtime where
  "example_runtime = \<lparr>heap = [], rand = (\<lambda>i. 0), clock = (\<lambda>i. 0)\<rparr>"

definition example_node :: "int \<Rightarrow> int list \<Rightarrow> GossipNode" where
  "example_node i nbs =
     \<lparr>node_id = i, pos_x = 50, pos_y = 50, state = SUSCEPTIBLE, messages = [],
      neighbors = nbs, infection_probability = 1 / 10, recovery_probability = 5 / 100,
      is_active = True, message_history = []\<rparr>"

definition example_sim :: GossipSimulator where
  "example_sim =
     \<lparr>num_nodes = 2, width = 800, height = 600,
      nodes = [(0, example_node 0 [1]), (1, example_node 1 [0])],
      running = False, step_count = 0, message_counter = 0, gossip_fanout = 3,
      transmission_probability = 8 / 10, max_hop_count = 10, simulation_speed = 1\<rparr>"

section \<open>Auxiliary notions for the statements\<close>


text \<open>The order SUSCEPTIBLE, INFECTED, REMOVED of the epidemic states.\<close>

fun rank :: "NodeState \<Rightarrow> nat" where
  "rank SUSCEPTIBLE = 0"
| "rank INFECTED = 1"
| "rank REMOVED = 2"

text \<open>
  Two states of the node dictionary, entry by entry: the same keys in the same
  order, and the node objects related by \<open>R\<close>.
\<close>

definition nodes_rel :: "(GossipNode \<Rightarrow> GossipNode \<Rightarrow> bool)
    \<Rightarrow> (int \<times> GossipNode) list \<Rightarrow> (int \<times> GossipNode) list \<Rightarrow> bool" where
  "nodes_rel R = list_all2 (\<lambda>p q. fst q = fst p \<and> R (snd p) (snd q))"


text \<open>
  What stepping may change of a node object: its state, forward, and the messages
  it holds.
\<close>

definition evolves :: "GossipNode \<Rightarrow> GossipNode \<Rightarrow> bool" where
  "evolves n n' \<longleftrightarrow>
     node_id n' = node_id n \<and> neighbors n' = neighbors n
     \<and> infection_probability n' = infection_probability n
     \<and> recovery_probability n' = recovery_probability n
     \<and> rank (state n) \<le> rank (state n')"


text \<open>
  States of the engine of two nodes: after \<^verbatim>\<open>start_gossip([0])\<close>, and after one
  \<^verbatim>\<open>step()\<close> more, in which node 0 sends the message object \<open>r\<close> to node 1, node 1
  is infected by it, and both nodes recover.
\<close>

definition example_started :: GossipSimulator where
  "example_started =
     example_sim\<lparr>nodes := [(0, (example_node 0 [1])\<lparr>state := INFECTED\<rparr>),
                           (1, example_node 1 [0])],
                 running := True\<rparr>"

definition example_message :: "int \<Rightarrow> Message" where
  "example_message hops =
     \<lparr>msg_id = ''msg_0_0'', content = ''Gossip from node 0'', timestamp = 0,
      source_node = 0, hop_count = hops\<rparr>"

definition example_stepped :: "ref \<Rightarrow> GossipSimulator" where
  "example_stepped r =
     example_sim\<lparr>nodes := [(0, (example_node 0 [1])\<lparr>state := REMOVED\<rparr>),
                           (1, (example_node 1 [0])\<lparr>state := REMOVED,
                                 messages := [(''msg_0_0'', r)], message_history := [r]\<rparr>)],
                 running := True, step_count := 1, message_counter := 1\<rparr>"


text \<open>
  The identifier \<^verbatim>\<open>f"msg_{counter}_{node_id}"\<close> that \<^verbatim>\<open>_gossip_step\<close> gives to the
  message it builds.
\<close>

definition message_name :: "int \<Rightarrow> int \<Rightarrow> string" where
  "message_name c n = ''msg_'' @ str_int c @ ''_'' @ str_int n"

text \<open>The value of a string of decimal digits.\<close>

definition digits_val :: "string \<Rightarrow> nat" where
  "digits_val ds = foldl (\<lambda>a c. 10 * a + (of_char c - 48)) 0 ds"

text \<open>
  The message objects constructed between two states of the runtime: the store
  only grows at its end.
\<close>

definition created :: "runtime \<Rightarrow> runtime \<Rightarrow> Message list" where
  "created rt rt' = drop (length (heap rt)) (heap rt')"

fun is_start_or_step :: "call \<Rightarrow> bool" where
  "is_start_or_step (StartGossip ids) = True"
| "is_start_or_step Step = True"
| "is_start_or_step ResetSimulation = False"
| "is_start_or_step (UpdateParameters kwargs) = False"

text \<open>
  Identifiers built at strictly increasing values of the message counter, all of
  them from \<open>c\<close> on and below \<open>c'\<close>.
\<close>

definition fresh_ids :: "int \<Rightarrow> int \<Rightarrow> string list \<Rightarrow> bool" where
  "fresh_ids c c' ids \<longleftrightarrow>
     c \<le> c' \<and>
     (\<exists>cns. ids = map (\<lambda>(k, n). message_name k n) cns
        \<and> sorted_wrt (<) (map fst cns)
        \<and> list_all (\<lambda>k. c \<le> k \<and> k < c') (map fst cns))"

text \<open>The store without the hop counts, the one field of a message that changes.\<close>

definition unhopped :: "Message list \<Rightarrow> Message list" where
  "unhopped h = map (\<lambda>m. m\<lparr>hop_count := 0\<rparr>) h"

text \<open>
  From one state of the engine and the runtime to a later one: the store has grown
  by messages whose identifiers were built at the values of the counter in between.
\<close>

definition grows :: "GossipSimulator \<Rightarrow> runtime \<Rightarrow> GossipSimulator \<Rightarrow> runtime \<Rightarrow> bool" where
  "grows s rt s' rt' \<longleftrightarrow>
     (\<exists>ids. map msg_id (heap rt') = map msg_id (heap rt) @ ids
        \<and> fresh_ids (message_counter s) (message_counter s') ids)"

text \<open>Two states of the engine that differ at most in the node dictionary.\<close>

definition same_parameters :: "GossipSimulator \<Rightarrow> GossipSimulator \<Rightarrow> bool" where
  "same_parameters s s' \<longleftrightarrow> s'\<lparr>nodes := nodes s\<rparr> = s"

text \<open>
  The origin of the message that a round of the node under key \<open>k\<close> builds, if the
  round builds one: a node without neighbours builds none.
\<close>

definition round_sources :: "(int \<times> GossipNode) list \<Rightarrow> int \<Rightarrow> int list" where
  "round_sources ns k =
     (case map_of ns k of
        None \<Rightarrow> []
      | Some node \<Rightarrow> if neighbors node = [] then [] else [node_id node])"


text \<open>
  The example engine after \<^verbatim>\<open>start_gossip([0, 1])\<close> and one \<^verbatim>\<open>step()\<close>: each node
  has sent a message to the other, and both have recovered.
\<close>

definition example_message_1 :: Message where
  "example_message_1 =
     \<lparr>msg_id = ''msg_1_1'', content = ''Gossip from node 1'', timestamp = 0,
      source_node = 1, hop_count = 1\<rparr>"

definition example_stepped_both :: GossipSimulator where
  "example_stepped_both =
     example_sim\<lparr>nodes :=
        [(0, (example_node 0 [1])\<lparr>state := REMOVED, messages := [(''msg_1_1'', 1)],
               message_history := [1]\<rparr>),
         (1, (example_node 1 [0])\<lparr>state := REMOVED, messages := [(''msg_0_0'', 0)],
               message_history := [0]\<rparr>)],
        running := True, step_count := 1, message_counter := 2\<rparr>"








text \<open>
  The neighbour relation of a node dictionary: \<open>j\<close> is in the neighbour set of the
  node stored under \<open>i\<close>.
\<close>

definition is_edge :: "(int \<times> GossipNode) list \<Rightarrow> int \<Rightarrow> int \<Rightarrow> bool" where
  "is_edge ns i j = (case map_of ns i of None \<Rightarrow> False | Some node \<Rightarrow> j \<in> set (neighbors node))"

definition edges :: "(int \<times> GossipNode) list \<Rightarrow> (int \<times> int) set" where
  "edges ns = {(i, j). is_edge ns i j}"

text \<open>Every neighbour of a node has that node among its neighbours.\<close>

definition symmetric_neighbors :: "(int \<times> GossipNode) list \<Rightarrow> bool" where
  "symmetric_neighbors ns =
     list_all (\<lambda>p. list_all (\<lambda>j. is_edge ns j (fst p)) (neighbors (snd p))) ns"

text \<open>Every node is reachable from every node along neighbours.\<close>

definition connected_topology :: "(int \<times> GossipNode) list \<Rightarrow> bool" where
  "connected_topology ns =
     list_all (\<lambda>p. list_all (\<lambda>q. (fst p, fst q) \<in> (edges ns)\<^sup>*) ns) ns"

text \<open>
  A node dictionary under construction: one entry per key, and a neighbour
  relation that is symmetric (so that every neighbour is a key).
\<close>

definition topology_ok :: "(int \<times> GossipNode) list \<Rightarrow> bool" where
  "topology_ok ns \<longleftrightarrow> distinct (map fst ns) \<and> (\<forall>i j. is_edge ns i j \<longrightarrow> is_edge ns j i)"

section \<open>Statistics\<close>

lemma count_state_length:
  "count_state st ns = int (length (filter (\<lambda>p. state (snd p) = st) ns))"
  unfolding count_state_def by (induction ns) auto

lemma count_state_partition:
  "count_state SUSCEPTIBLE ns + count_state INFECTED ns + count_state REMOVED ns
     = int (length ns)"
proof (induction ns)
  case Nil
  show ?case by (simp add: count_state_def)
next
  case (Cons p ps)
  then show ?case by (cases "state (snd p)") (auto simp: count_state_def)
qed




text \<open>
  C10: in every statistics snapshot the susceptible, infected and removed counts add
  up to the number of nodes.
\<close>

theorem statistics_counts_sum:
  "stats_susceptible (get_statistics s) + stats_infected (get_statistics s)
     + stats_removed (get_statistics s) = int (length (nodes s))"
  by (simp add: get_statistics_def count_state_partition)

section \<open>Termination of a run\<close>

lemma step_not_running: "\<not> running s \<Longrightarrow> step s rt = Returned (s, rt)"
  by (simp add: step_def)

lemma steps_not_running: "\<not> running s \<Longrightarrow> steps n s rt = (s, rt)"
  by (induction n) (simp_all add: step_not_running)

lemma step_no_infected:
  assumes "running s" and "\<forall>p \<in> set (nodes s). state (snd p) \<noteq> INFECTED"
  shows "step s rt = Returned (s\<lparr>step_count := step_count s + 1, running := False\<rparr>, rt)"
proof -
  have "filter (\<lambda>p. state (snd p) = INFECTED) (nodes s) = []"
    using assms(2) by (simp add: filter_empty_conv)
  then show ?thesis using assms(1) by (simp add: step_def)
qed

text \<open>
  C8: \<^verbatim>\<open>step()\<close> on an engine that is not running returns at once and changes
  nothing; \<^verbatim>\<open>step()\<close> on a running engine with no INFECTED node returns with
  \<open>running\<close> false, and \<open>running\<close> is still false after any number of further calls
  of \<^verbatim>\<open>step()\<close>; \<^verbatim>\<open>start_gossip\<close> sets it again.
\<close>

theorem step_stops_when_no_infected:
  "(\<not> running s \<longrightarrow> step s rt = Returned (s, rt))
   \<and> (running s \<and> (\<forall>p \<in> set (nodes s). state (snd p) \<noteq> INFECTED) \<longrightarrow>
        \<not> is_raised (step s rt)
        \<and> \<not> running (fst (after (step s rt)))
        \<and> (\<forall>n. \<not> running (fst (steps n (fst (after (step s rt))) (snd (after (step s rt)))))))
   \<and> running (start_gossip ids s)"
proof (intro conjI impI)
  assume "\<not> running s"
  then show "step s rt = Returned (s, rt)" by (rule step_not_running)
next
  assume a: "running s \<and> (\<forall>p \<in> set (nodes s). state (snd p) \<noteq> INFECTED)"
  then have eq: "step s rt = Returned (s\<lparr>step_count := step_count s + 1, running := False\<rparr>, rt)"
    by (simp add: step_no_infected)
  show "\<not> is_raised (step s rt)" by (simp add: eq)
  show "\<not> running (fst (after (step s rt)))" by (simp add: eq)
  show "\<forall>n. \<not> running (fst (steps n (fst (after (step s rt))) (snd (after (step s rt)))))"
    by (simp add: eq steps_not_running)
next
  show "running (start_gossip ids s)" by (simp add: start_gossip_def Let_def)
qed

section \<open>The example engine\<close>

lemma random_random_example: "random_random example_runtime = (0, example_runtime)"
  by (simp add: random_random_def example_runtime_def)

lemma random_uniform_example: "random_uniform a b example_runtime = (a, example_runtime)"
  by (simp add: random_uniform_def random_random_example)

lemma random_choice_example:
  "xs \<noteq> [] \<Longrightarrow> random_choice xs example_runtime = Inr (xs ! 0, example_runtime)"
  by (simp add: random_choice_def example_runtime_def)

lemma example_constructed:
  "GossipSimulator_init (Suc (Suc (Suc limit))) 2 800 600 example_runtime
     = Inr (example_sim, example_runtime)"
  by (simp add: GossipSimulator_init_def initialize_nodes_def upto_rec1
      random_uniform_example GossipNode_init_def build_network_topology_def
      connect_pair_def add_neighbor_def ensure_connectivity_def example_sim_def
      example_node_def)

section \<open>Unknown identifiers and unknown parameters\<close>

lemma keys_map_node: "map fst (map_node k f ns) = map fst ns"
  by (induction ns) auto

lemma key_set_map_node: "fst ` set (map_node k f ns) = fst ` set ns"
  using keys_map_node [of k f ns] by (metis set_map)

lemma infect_initial_filter:
  "infect_initial ids ns = infect_initial (filter (\<lambda>i. i \<in> fst ` set ns) ids) ns"
proof (induction ids arbitrary: ns)
  case Nil
  show ?case by simp
next
  case (Cons i ids)
  show ?case
  proof (cases "i \<in> fst ` set ns")
    case True
    have "infect_initial (i # ids) ns = infect_initial ids (map_node i infect ns)"
      using True by simp
    also have "\<dots> = infect_initial (filter (\<lambda>i. i \<in> fst ` set ns) ids) (map_node i infect ns)"
      using Cons.IH [of "map_node i infect ns"] by (simp add: key_set_map_node)
    finally show ?thesis using True by simp
  next
    case False
    then show ?thesis using Cons.IH [of ns] by simp
  qed
qed

lemma key_set_reset: "fst ` set (map (\<lambda>(k, n). (k, reset_node n)) ns) = fst ` set ns"
  by (induction ns) auto

text \<open>
  C2 (as the code has it): \<^verbatim>\<open>start_gossip\<close> never raises. An identifier that is
  not a key of \<^verbatim>\<open>nodes\<close> is skipped: the call returns, with the state it would
  reach for the list without such identifiers.
\<close>

theorem start_gossip_ignores_unknown:
  "perform (StartGossip (Some ids)) (s, rt) =
     Some (Returned (start_gossip (Some (filter (\<lambda>i. i \<in> fst ` set (nodes s)) ids)) s, rt))"
proof -
  let ?ns = "map (\<lambda>(k, n). (k, reset_node n)) (nodes s)"
  have "infect_initial ids ?ns = infect_initial (filter (\<lambda>i. i \<in> fst ` set (nodes s)) ids) ?ns"
    using infect_initial_filter [of ids ?ns] by (simp only: key_set_reset)
  then show ?thesis by (simp add: start_gossip_def)
qed

text \<open>
  C2 (as stated) fails: on the engine of two nodes, \<^verbatim>\<open>start_gossip([7])\<close> returns
  normally, with every node SUSCEPTIBLE and the engine running.
\<close>

theorem start_gossip_unknown_counterexample:
  "7 \<notin> fst ` set (nodes example_sim) \<and>
   perform (StartGossip (Some [7])) (example_sim, example_runtime) =
     Some (Returned (example_sim\<lparr>running := True\<rparr>, example_runtime))"
  by (simp add: start_gossip_def example_sim_def example_node_def reset_node_def)









section \<open>Termination of a run, on the example\<close>

theorem step_stops_when_no_infected_witness:
  "\<not> running example_sim
   \<and> step example_sim example_runtime = Returned (example_sim, example_runtime)
   \<and> running (start_gossip (Some []) example_sim)
   \<and> map (\<lambda>p. state (snd p)) (nodes (start_gossip (Some []) example_sim))
       = [SUSCEPTIBLE, SUSCEPTIBLE]
   \<and> \<not> running (fst (after (step (start_gossip (Some []) example_sim) example_runtime)))"
  using step_stops_when_no_infected [of example_sim example_runtime]
    step_stops_when_no_infected [of "start_gossip (Some []) example_sim" example_runtime]
  by (simp add: start_gossip_def example_sim_def example_node_def reset_node_def)

section \<open>What a step changes\<close>

lemma nodes_rel_refl: "(\<And>n. R n n) \<Longrightarrow> nodes_rel R ns ns"
  unfolding nodes_rel_def by (simp add: list_all2_refl)

lemma nodes_rel_trans:
  assumes "\<And>a b c. R a b \<Longrightarrow> R b c \<Longrightarrow> R a c"
    and "nodes_rel R xs ys" and "nodes_rel R ys zs"
  shows "nodes_rel R xs zs"
  using assms(2,3) unfolding nodes_rel_def
  by (rule list_all2_trans [rotated]) (auto intro: assms(1))



lemma evolves_refl: "evolves n n"
  by (simp add: evolves_def)

lemma evolves_trans: "evolves a b \<Longrightarrow> evolves b c \<Longrightarrow> evolves a c"
  by (auto simp: evolves_def)





lemma evolves_receive_message: "receive_message r n rt = (n', rt') \<Longrightarrow> evolves n n'"
  by (auto simp: evolves_def receive_message_def Let_def infect_def split: prod.splits if_splits)

lemma modify_node_rel:
  assumes "\<And>n. R n n" and "\<And>n rt n' rt'. f n rt = (n', rt') \<Longrightarrow> R n n'"
  shows "modify_node k f ns rt = (ns', rt') \<Longrightarrow> nodes_rel R ns ns'"
proof (induction ns arbitrary: ns' rt')
  case Nil
  then show ?case by (simp add: nodes_rel_def)
next
  case (Cons p ps)
  show ?case
  proof (cases "fst p = k")
    case True
    obtain n' rt1 where f: "f (snd p) rt = (n', rt1)" by (cases "f (snd p) rt")
    then have "R (snd p) n'" by (rule assms(2))
    moreover have "nodes_rel R ps ps" using assms(1) by (rule nodes_rel_refl)
    ultimately show ?thesis using True f Cons.prems
      by (auto simp: nodes_rel_def)
  next
    case False
    obtain ps' rt1 where m: "modify_node k f ps rt = (ps', rt1)"
      by (cases "modify_node k f ps rt")
    then have "nodes_rel R ps ps'" by (rule Cons.IH)
    then show ?thesis using False m Cons.prems assms(1)
      by (auto simp: nodes_rel_def)
  qed
qed

lemma modify_receive_evolves:
  "modify_node t (receive_message r) ns rt = (ns', rt') \<Longrightarrow> nodes_rel evolves ns ns'"
  by (erule modify_node_rel [rotated 2]) (auto intro: evolves_refl evolves_receive_message)

lemma deliver_one_evolves:
  "deliver_one t r s rt = (s', rt') \<Longrightarrow> nodes_rel evolves (nodes s) (nodes s')"
  by (auto simp: deliver_one_def Let_def nodes_rel_refl evolves_refl
      split: prod.splits if_splits dest!: modify_receive_evolves)

lemma nodes_evolve_trans:
  "nodes_rel evolves xs ys \<Longrightarrow> nodes_rel evolves ys zs \<Longrightarrow> nodes_rel evolves xs zs"
  by (erule nodes_rel_trans [rotated]) (auto intro: evolves_trans)

lemma deliver_evolves:
  "deliver ts r s rt = (s', rt') \<Longrightarrow> nodes_rel evolves (nodes s) (nodes s')"
proof (induction ts arbitrary: s rt)
  case Nil
  then show ?case by (simp add: nodes_rel_refl evolves_refl)
next
  case (Cons t ts)
  obtain s1 rt1 where d: "deliver_one t r s rt = (s1, rt1)" by (cases "deliver_one t r s rt")
  with Cons.prems have "deliver ts r s1 rt1 = (s', rt')" by simp
  then have "nodes_rel evolves (nodes s1) (nodes s')" by (rule Cons.IH)
  with deliver_one_evolves [OF d] show ?case by (rule nodes_evolve_trans)
qed

lemma gossip_step_evolves:
  "after (gossip_step k s rt) = (s', rt') \<Longrightarrow> nodes_rel evolves (nodes s) (nodes s')"
  by (auto simp: gossip_step_def Let_def nodes_rel_refl evolves_refl
      split: option.splits if_splits sum.splits prod.splits dest!: deliver_evolves)














section \<open>Runs of the example engine\<close>

lemma str_int_0: "str_int 0 = ''0''"
proof -
  have "char_of (48 :: nat) = CHR ''0''" by code_simp
  then show ?thesis by (simp add: str_int_def digit_char_def)
qed

lemma start_example: "start_gossip (Some [0]) example_sim = example_started"
  by (simp add: start_gossip_def example_sim_def example_started_def example_node_def
      reset_node_def infect_def)

lemma start_default_example: "start_gossip None example_sim = example_started"
  by (simp add: start_gossip_def example_sim_def example_started_def example_node_def
      reset_node_def infect_def)

lemma step_example:
  "step example_started (example_runtime\<lparr>heap := h\<rparr>)
     = Returned (example_stepped (length h), example_runtime\<lparr>heap := h @ [example_message 1]\<rparr>)"
  by (simp add: step_def example_started_def example_stepped_def example_sim_def
      example_node_def example_message_def infect_def gossip_step_def random_sample_def
      Let_def example_runtime_def time_time_def new_message_def deliver_one_def
      random_random_def receive_message_def recover_def str_int_0)

lemma reset_example: "reset_simulation (example_stepped r) = example_sim"
  by (simp add: reset_simulation_def example_stepped_def example_sim_def example_node_def
      reset_node_def)

lemma example_runtime_heap: "example_runtime\<lparr>heap := []\<rparr> = example_runtime"
  by (simp add: example_runtime_def)




section \<open>Message identifiers\<close>

lemma of_char_digit_char: "d < 10 \<Longrightarrow> of_char (digit_char d) = 48 + d"
  by (simp add: digit_char_def)

lemma str_nat_unfold:
  "str_nat n = (if n < 10 then [digit_char n] else str_nat (n div 10) @ [digit_char (n mod 10)])"
  by (rule str_nat.simps)

declare str_nat.simps [simp del]

lemma str_nat_digits: "c \<in> set (str_nat n) \<Longrightarrow> \<exists>d < 10. c = digit_char d"
proof (induction n rule: str_nat.induct)
  case (1 n)
  show ?case
  proof (cases "n < 10")
    case True
    with "1.prems" show ?thesis by (subst (asm) str_nat_unfold) auto
  next
    case False
    with "1.prems" have "c \<in> set (str_nat (n div 10)) \<or> c = digit_char (n mod 10)"
      by (subst (asm) str_nat_unfold) auto
    then show ?thesis
    proof
      assume "c \<in> set (str_nat (n div 10))"
      with False "1.IH" show ?thesis by blast
    next
      assume "c = digit_char (n mod 10)"
      moreover have "n mod 10 < 10" by simp
      ultimately show ?thesis by blast
    qed
  qed
qed

lemma digits_val_snoc: "digits_val (ds @ [c]) = 10 * digits_val ds + (of_char c - 48)"
  by (simp add: digits_val_def)

lemma digits_val_str_nat: "digits_val (str_nat n) = n"
proof (induction n rule: str_nat.induct)
  case (1 n)
  show ?case
  proof (cases "n < 10")
    case True
    then show ?thesis
      by (subst str_nat_unfold) (simp add: digits_val_def of_char_digit_char)
  next
    case False
    then have "digits_val (str_nat (n div 10)) = n div 10" by (rule "1.IH")
    moreover have "of_char (digit_char (n mod 10)) = 48 + n mod 10"
      by (rule of_char_digit_char) simp
    ultimately show ?thesis using False
      by (subst str_nat_unfold) (simp add: digits_val_snoc)
  qed
qed

lemma str_nat_inj:
  assumes "str_nat m = str_nat n"
  shows "m = n"
proof -
  have "digits_val (str_nat m) = digits_val (str_nat n)" by (simp only: assms)
  then show ?thesis by (simp only: digits_val_str_nat)
qed

lemma str_nat_not_Nil: "str_nat n \<noteq> []"
  by (subst str_nat_unfold) simp

lemma digit_char_not_special:
  assumes "d < 10"
  shows "digit_char d \<noteq> CHR ''_''" and "digit_char d \<noteq> CHR ''-''"
proof -
  have "of_char (digit_char d) = 48 + d" using assms by (rule of_char_digit_char)
  moreover have "of_char (CHR ''_'') = (95 :: nat)" "of_char (CHR ''-'') = (45 :: nat)"
    by simp_all
  ultimately show "digit_char d \<noteq> CHR ''_''" and "digit_char d \<noteq> CHR ''-''"
    using assms by auto
qed

lemma str_nat_no_underscore: "CHR ''_'' \<notin> set (str_nat n)"
proof
  assume "CHR ''_'' \<in> set (str_nat n)"
  from str_nat_digits [OF this] obtain d where "d < 10" and "CHR ''_'' = digit_char d"
    by auto
  with digit_char_not_special(1) [of d] show False by simp
qed

lemma str_nat_no_minus: "CHR ''-'' \<notin> set (str_nat n)"
proof
  assume "CHR ''-'' \<in> set (str_nat n)"
  from str_nat_digits [OF this] obtain d where "d < 10" and "CHR ''-'' = digit_char d"
    by auto
  with digit_char_not_special(2) [of d] show False by simp
qed

lemma str_int_no_underscore: "CHR ''_'' \<notin> set (str_int i)"
  by (simp add: str_int_def str_nat_no_underscore)

lemma str_int_inj:
  assumes "str_int i = str_int j"
  shows "i = j"
proof -
  have neg: "str_nat m \<noteq> CHR ''-'' # str_nat n" for m n
  proof
    assume e: "str_nat m = CHR ''-'' # str_nat n"
    have "CHR ''-'' \<in> set (str_nat m)" unfolding e by simp
    with str_nat_no_minus [of m] show False by simp
  qed
  show ?thesis
  proof (cases "i < 0")
    case True
    show ?thesis
    proof (cases "j < 0")
      case True
      with \<open>i < 0\<close> assms have "nat (- i) = nat (- j)"
        by (simp add: str_int_def str_nat_inj)
      with True \<open>i < 0\<close> show ?thesis by simp
    next
      case False
      with \<open>i < 0\<close> assms neg [of "nat j" "nat (- i)"] show ?thesis
        by (simp add: str_int_def)
    qed
  next
    case False
    show ?thesis
    proof (cases "j < 0")
      case True
      with False assms neg [of "nat i" "nat (- j)"] show ?thesis
        by (simp add: str_int_def)
    next
      case nonneg: False
      with False assms have "nat i = nat j"
        by (simp add: str_int_def str_nat_inj)
      with False nonneg show ?thesis by simp
    qed
  qed
qed

lemma message_name_inj:
  assumes "message_name c n = message_name c' n'"
  shows "c = c'" and "n = n'"
proof -
  from assms have "str_int c @ CHR ''_'' # str_int n = str_int c' @ CHR ''_'' # str_int n'"
    by (simp add: message_name_def)
  then have "str_int c = str_int c' \<and> str_int n = str_int n'"
    by (rule append_Cons_eq_iff
        [OF str_int_no_underscore str_int_no_underscore, THEN iffD1])
  then show "c = c'" and "n = n'" by (simp_all add: str_int_inj)
qed

lemma msg_id_new_message: "msg_id (new_message s n t) = message_name (message_counter s) n"
  by (simp add: new_message_def message_name_def)

section \<open>Identifiers of the messages a run creates\<close>

lemma fresh_ids_Nil: "c \<le> c' \<Longrightarrow> fresh_ids c c' []"
  unfolding fresh_ids_def by (auto intro: exI [of _ "[]"])

lemma fresh_ids_single: "fresh_ids c (c + 1) [message_name c n]"
  unfolding fresh_ids_def by (auto intro: exI [of _ "[(c, n)]"])

lemma fresh_ids_append:
  assumes "fresh_ids a b xs" and "fresh_ids b c ys"
  shows "fresh_ids a c (xs @ ys)"
proof -
  from assms(1) obtain ps where ab: "a \<le> b" and xs: "xs = map (\<lambda>(k, n). message_name k n) ps"
    and sp: "sorted_wrt (<) (map fst ps)" and bp: "list_all (\<lambda>k. a \<le> k \<and> k < b) (map fst ps)"
    unfolding fresh_ids_def by blast
  from assms(2) obtain qs where bc: "b \<le> c" and ys: "ys = map (\<lambda>(k, n). message_name k n) qs"
    and sq: "sorted_wrt (<) (map fst qs)" and bq: "list_all (\<lambda>k. b \<le> k \<and> k < c) (map fst qs)"
    unfolding fresh_ids_def by blast
  have "xs @ ys = map (\<lambda>(k, n). message_name k n) (ps @ qs)"
    by (simp add: xs ys)
  moreover have "sorted_wrt (<) (map fst (ps @ qs))"
    using sp sq bp bq by (fastforce simp: sorted_wrt_append list_all_iff)
  moreover have "list_all (\<lambda>k. a \<le> k \<and> k < c) (map fst (ps @ qs))"
    using bp bq ab bc by (fastforce simp: list_all_iff)
  ultimately show ?thesis
    unfolding fresh_ids_def using ab bc by (intro conjI exI [of _ "ps @ qs"]) auto
qed

lemma fresh_ids_distinct:
  assumes "fresh_ids c c' ids"
  shows "distinct ids"
proof -
  from assms obtain ps where ids: "ids = map (\<lambda>(k, n). message_name k n) ps"
    and sp: "sorted_wrt (<) (map fst ps)"
    unfolding fresh_ids_def by blast
  from sp have "distinct (map fst ps)"
    by (simp add: strict_sorted_iff)
  then have "distinct ps" by (rule distinct_map [THEN iffD1, THEN conjunct1])
  have "inj_on (\<lambda>(k, n). message_name k n) (set ps)"
    by (auto simp: inj_on_def dest: message_name_inj)
  with \<open>distinct ps\<close> show ?thesis by (simp add: ids distinct_map)
qed

section \<open>The store of messages during a step\<close>

lemma msg_id_unhopped: "map msg_id (unhopped h) = map msg_id h"
  by (simp add: unhopped_def)

lemma source_node_unhopped: "map source_node (unhopped h) = map source_node h"
  by (simp add: unhopped_def)

lemma unhopped_append: "unhopped (h @ h') = unhopped h @ unhopped h'"
  by (simp add: unhopped_def)

lemma unhopped_update:
  "unhopped (h[r := (h ! r)\<lparr>hop_count := c\<rparr>]) = unhopped h"
proof (cases "r < length h")
  case True
  then show ?thesis
    by (simp add: unhopped_def map_update list_update_same_conv)
next
  case False
  then have "length h \<le> r" by simp
  then show ?thesis by (simp only: list_update_beyond)
qed

lemma random_random_heap: "random_random rt = (u, rt') \<Longrightarrow> heap rt' = heap rt"
  by (auto simp: random_random_def)

lemma receive_message_heap: "receive_message r n rt = (n', rt') \<Longrightarrow> heap rt' = heap rt"
  by (auto simp: receive_message_def Let_def split: if_splits prod.splits
      dest: random_random_heap)

lemma recover_heap: "recover n rt = (n', rt') \<Longrightarrow> heap rt' = heap rt"
  by (auto simp: recover_def split: if_splits prod.splits dest: random_random_heap)

lemma modify_node_heap:
  assumes "\<And>n rt n' rt'. f n rt = (n', rt') \<Longrightarrow> heap rt' = heap rt"
  shows "modify_node k f ns rt = (ns', rt') \<Longrightarrow> heap rt' = heap rt"
proof (induction ns arbitrary: ns' rt')
  case Nil
  then show ?case by simp
next
  case (Cons p ps)
  show ?case
  proof (cases "fst p = k")
    case True
    with Cons.prems show ?thesis by (auto split: prod.splits dest: assms)
  next
    case False
    obtain ps' rt1 where m: "modify_node k f ps rt = (ps', rt1)"
      by (cases "modify_node k f ps rt")
    from Cons.IH [OF m] m False Cons.prems show ?thesis by simp
  qed
qed

lemma modify_receive_heap:
  "modify_node t (receive_message r) ns rt = (ns', rt') \<Longrightarrow> heap rt' = heap rt"
  by (erule modify_node_heap [rotated]) (rule receive_message_heap)

lemma same_parameters_refl: "same_parameters s s"
  by (simp add: same_parameters_def)

lemma same_parameters_nodes: "same_parameters s (s\<lparr>nodes := ns\<rparr>)"
  by (simp add: same_parameters_def)

lemma same_parameters_trans:
  assumes "same_parameters a b" and "same_parameters b c"
  shows "same_parameters a c"
proof -
  from assms have 1: "b\<lparr>nodes := nodes a\<rparr> = a" and 2: "c\<lparr>nodes := nodes b\<rparr> = b"
    by (simp_all add: same_parameters_def)
  have "c\<lparr>nodes := nodes a\<rparr> = (c\<lparr>nodes := nodes b\<rparr>)\<lparr>nodes := nodes a\<rparr>" by simp
  also have "\<dots> = b\<lparr>nodes := nodes a\<rparr>" by (simp only: 2)
  also have "\<dots> = a" by (rule 1)
  finally show ?thesis by (simp add: same_parameters_def)
qed

lemma same_parameters_fields:
  assumes "same_parameters s s'"
  shows "message_counter s' = message_counter s" and "running s' = running s"
    and "step_count s' = step_count s" and "gossip_fanout s' = gossip_fanout s"
    and "transmission_probability s' = transmission_probability s"
    and "max_hop_count s' = max_hop_count s"
proof -
  from assms have e: "s = s'\<lparr>nodes := nodes s\<rparr>" by (simp add: same_parameters_def)
  show "message_counter s' = message_counter s" by (subst e) simp
  show "running s' = running s" by (subst e) simp
  show "step_count s' = step_count s" by (subst e) simp
  show "gossip_fanout s' = gossip_fanout s" by (subst e) simp
  show "transmission_probability s' = transmission_probability s" by (subst e) simp
  show "max_hop_count s' = max_hop_count s" by (subst e) simp
qed

lemma deliver_one_frame:
  assumes "deliver_one t r s rt = (s', rt')"
  shows "unhopped (heap rt') = unhopped (heap rt)" and "same_parameters s s'"
proof -
  obtain u rt1 where rr: "random_random rt = (u, rt1)" by (cases "random_random rt")
  then have h1: "heap rt1 = heap rt" by (rule random_random_heap)
  let ?rt2 = "rt1\<lparr>heap := (heap rt1)[r := (heap rt1 ! r)\<lparr>hop_count := hop_count (heap rt1 ! r) + 1\<rparr>]\<rparr>"
  obtain ns rt3 where m: "modify_node t (receive_message r) (nodes s) ?rt2 = (ns, rt3)"
    by (cases "modify_node t (receive_message r) (nodes s) ?rt2")
  then have h3: "heap rt3 = heap ?rt2" by (rule modify_receive_heap)
  have "unhopped (heap rt3) = unhopped (heap rt)"
    unfolding h3 using h1 by (simp add: unhopped_update)
  moreover have "(s', rt') = (s, rt) \<or> (s', rt') = (s, rt1) \<or> (s', rt') = (s\<lparr>nodes := ns\<rparr>, rt3)"
    using assms rr m by (simp add: deliver_one_def Let_def split: if_splits)
  ultimately show "unhopped (heap rt') = unhopped (heap rt)" and "same_parameters s s'"
    using h1 by (auto simp: same_parameters_refl same_parameters_nodes)
qed

lemma deliver_frame:
  "deliver ts r s rt = (s', rt') \<Longrightarrow>
     unhopped (heap rt') = unhopped (heap rt) \<and> same_parameters s s'"
proof (induction ts arbitrary: s rt)
  case Nil
  then show ?case by (simp add: same_parameters_refl)
next
  case (Cons t ts)
  obtain s1 rt1 where d: "deliver_one t r s rt = (s1, rt1)" by (cases "deliver_one t r s rt")
  with Cons.prems have "deliver ts r s1 rt1 = (s', rt')" by simp
  from Cons.IH [OF this] deliver_one_frame [OF d] show ?case
    by (auto intro: same_parameters_trans)
qed

lemma pick_heap: "pick k xs rt = (ys, rt') \<Longrightarrow> heap rt' = heap rt"
proof (induction k arbitrary: xs rt ys rt')
  case 0
  then show ?case by simp
next
  case (Suc k)
  show ?case
  proof (cases "xs = []")
    case True
    with Suc.prems show ?thesis by simp
  next
    case False
    let ?i = "rand rt 0 mod length xs"
    let ?rt1 = "rt\<lparr>rand := (\<lambda>j. rand rt (Suc j))\<rparr>"
    obtain zs rt2 where p: "pick k (take ?i xs @ drop (Suc ?i) xs) ?rt1 = (zs, rt2)"
      by (cases "pick k (take ?i xs @ drop (Suc ?i) xs) ?rt1")
    from Suc.IH [OF p] have "heap rt2 = heap rt" by simp
    moreover from Suc.prems False p have "rt' = rt2" by (simp add: Let_def)
    ultimately show ?thesis by simp
  qed
qed

lemma random_sample_heap: "random_sample xs k rt = Inr (ys, rt') \<Longrightarrow> heap rt' = heap rt"
  by (auto simp: random_sample_def split: if_splits dest: pick_heap)

lemma time_time_heap: "time_time rt = (t, rt') \<Longrightarrow> heap rt' = heap rt"
  by (auto simp: time_time_def)

text \<open>What one round adds to the store.\<close>

lemma gossip_step_raised: "gossip_step k s rt = Raised e w \<Longrightarrow> w = (s, rt)"
  by (auto simp: gossip_step_def Let_def split: option.splits if_splits sum.splits prod.splits)

lemma gossip_step_returned:
  assumes "gossip_step k s rt = Returned (s', rt')"
  shows "\<exists>ms. unhopped (heap rt') = unhopped (heap rt) @ ms
      \<and> map source_node ms = round_sources (nodes s) k
      \<and> map msg_id ms = map (message_name (message_counter s)) (round_sources (nodes s) k)
      \<and> same_parameters (s\<lparr>message_counter := message_counter s + int (length ms)\<rparr>) s'"
proof (cases "map_of (nodes s) k")
  case None
  with assms have "s' = s" "rt' = rt" by (simp_all add: gossip_step_def)
  with None show ?thesis
    by (intro exI [of _ "[]"]) (simp add: round_sources_def same_parameters_def)
next
  case (Some node)
  show ?thesis
  proof (cases "neighbors node = []")
    case True
    with assms Some have "s' = s" "rt' = rt" by (simp_all add: gossip_step_def)
    with Some True show ?thesis
      by (intro exI [of _ "[]"]) (simp add: round_sources_def same_parameters_def)
  next
    case False
    let ?k = "min (gossip_fanout s) (int (length (neighbors node)))"
    from assms Some False obtain targets rt1
      where smp: "random_sample (neighbors node) ?k rt = Inr (targets, rt1)"
      by (auto simp: gossip_step_def Let_def split: sum.splits)
    obtain t rt2 where tt: "time_time rt1 = (t, rt2)" by (cases "time_time rt1")
    let ?m = "new_message s (node_id node) t"
    let ?s1 = "s\<lparr>message_counter := message_counter s + 1\<rparr>"
    let ?rt3 = "rt2\<lparr>heap := heap rt2 @ [?m]\<rparr>"
    have h2: "heap rt2 = heap rt"
      using random_sample_heap [OF smp] time_time_heap [OF tt] by simp
    from assms Some False smp tt
    have d: "deliver targets (length (heap rt2)) ?s1 ?rt3 = (s', rt')"
      by (simp add: gossip_step_def Let_def)
    from deliver_frame [OF d]
    have u: "unhopped (heap rt') = unhopped (heap ?rt3)" and p: "same_parameters ?s1 s'"
      by simp_all
    have "unhopped [?m] = [?m]" by (simp add: unhopped_def new_message_def)
    with u h2 have "unhopped (heap rt') = unhopped (heap rt) @ [?m]"
      by (simp add: unhopped_append)
    moreover have "map source_node [?m] = round_sources (nodes s) k"
      using Some False by (simp add: round_sources_def new_message_def)
    moreover have "map msg_id [?m] = map (message_name (message_counter s)) (round_sources (nodes s) k)"
      using Some False by (simp add: round_sources_def msg_id_new_message)
    moreover have "same_parameters (s\<lparr>message_counter := message_counter s + int (length [?m])\<rparr>) s'"
      using p by simp
    ultimately show ?thesis by blast
  qed
qed

lemma map_of_evolves:
  "nodes_rel evolves ns ns' \<Longrightarrow>
     rel_option evolves (map_of ns k) (map_of ns' k)"
  unfolding nodes_rel_def
proof (induction rule: list_all2_induct)
  case Nil
  show ?case by simp
next
  case (Cons p ps q qs)
  then show ?case by (cases p, cases q) auto
qed

lemma round_sources_evolves:
  assumes "nodes_rel evolves ns ns'"
  shows "round_sources ns' k = round_sources ns k"
  using map_of_evolves [OF assms, of k]
  by (cases "map_of ns k"; cases "map_of ns' k") (auto simp: round_sources_def evolves_def)

lemma round_sources_length: "length (round_sources ns k) \<le> 1"
  by (simp add: round_sources_def split: option.splits)

lemma fresh_ids_round:
  "fresh_ids c (c + int (length (round_sources ns k))) (map (message_name c) (round_sources ns k))"
  by (auto simp: round_sources_def fresh_ids_Nil fresh_ids_single split: option.splits)

lemma gossip_all_store:
  "after (gossip_all ks s rt) = (s', rt') \<Longrightarrow>
     \<exists>ms j. j \<le> length ks \<and> (\<not> is_raised (gossip_all ks s rt) \<longrightarrow> j = length ks)
       \<and> unhopped (heap rt') = unhopped (heap rt) @ ms
       \<and> map source_node ms = concat (map (round_sources (nodes s)) (take j ks))
       \<and> fresh_ids (message_counter s) (message_counter s') (map msg_id ms)"
proof (induction ks arbitrary: s rt)
  case Nil
  then show ?case
    by (intro exI [of _ "[]"] exI [of _ 0]) (simp add: fresh_ids_Nil)
next
  case (Cons k ks)
  show ?case
  proof (cases "gossip_step k s rt")
    case (Raised e w)
    then have "w = (s, rt)" by (rule gossip_step_raised)
    with Raised Cons.prems have "s' = s" "rt' = rt" by simp_all
    with Raised show ?thesis
      by (intro exI [of _ "[]"] exI [of _ 0]) (simp add: fresh_ids_Nil)
  next
    case (Returned w)
    obtain s1 rt1 where w: "w = (s1, rt1)" by (cases w)
    from gossip_step_returned [OF Returned [unfolded w]] obtain ms1
      where u1: "unhopped (heap rt1) = unhopped (heap rt) @ ms1"
        and src1: "map source_node ms1 = round_sources (nodes s) k"
        and id1: "map msg_id ms1 = map (message_name (message_counter s)) (round_sources (nodes s) k)"
        and p1: "same_parameters (s\<lparr>message_counter := message_counter s + int (length ms1)\<rparr>) s1"
      by blast
    have len1: "length ms1 = length (round_sources (nodes s) k)"
      using src1 by (metis length_map)
    have c1: "message_counter s1 = message_counter s + int (length ms1)"
      using same_parameters_fields(1) [OF p1] by simp
    have f1: "fresh_ids (message_counter s) (message_counter s1) (map msg_id ms1)"
      unfolding id1 c1 len1 by (rule fresh_ids_round)
    have ev: "nodes_rel evolves (nodes s) (nodes s1)"
      using gossip_step_evolves [of k s rt s1 rt1] Returned w by simp
    have eq: "gossip_all (k # ks) s rt = gossip_all ks s1 rt1"
      using Returned w by simp
    with Cons.prems have "after (gossip_all ks s1 rt1) = (s', rt')" by simp
    from Cons.IH [OF this] obtain ms2 j
      where j: "j \<le> length ks" "\<not> is_raised (gossip_all ks s1 rt1) \<longrightarrow> j = length ks"
        and u2: "unhopped (heap rt') = unhopped (heap rt1) @ ms2"
        and src2: "map source_node ms2 = concat (map (round_sources (nodes s1)) (take j ks))"
        and f2: "fresh_ids (message_counter s1) (message_counter s') (map msg_id ms2)"
      by blast
    have rs: "round_sources (nodes s1) = round_sources (nodes s)"
      using round_sources_evolves [OF ev] by (simp add: fun_eq_iff)
    show ?thesis
    proof (intro exI [of _ "ms1 @ ms2"] exI [of _ "Suc j"] conjI)
      show "Suc j \<le> length (k # ks)" using j(1) by simp
      show "\<not> is_raised (gossip_all (k # ks) s rt) \<longrightarrow> Suc j = length (k # ks)"
        using j(2) eq by simp
      show "unhopped (heap rt') = unhopped (heap rt) @ ms1 @ ms2"
        using u1 u2 by simp
      show "map source_node (ms1 @ ms2)
          = concat (map (round_sources (nodes s)) (take (Suc j) (k # ks)))"
        using src1 src2 rs by simp
      show "fresh_ids (message_counter s) (message_counter s') (map msg_id (ms1 @ ms2))"
        using fresh_ids_append [OF f1 f2] by simp
    qed
  qed
qed

lemma recover_all_heap: "recover_all ns rt = (ns', rt') \<Longrightarrow> heap rt' = heap rt"
proof (induction ns arbitrary: rt ns' rt')
  case Nil
  then show ?case by simp
next
  case (Cons p ps)
  obtain n1 rt1 where r: "recover (snd p) rt = (n1, rt1)" by (cases "recover (snd p) rt")
  obtain ps1 rt2 where a: "recover_all ps rt1 = (ps1, rt2)" by (cases "recover_all ps rt1")
  from Cons.IH [OF a] recover_heap [OF r] r a Cons.prems show ?case by simp
qed

text \<open>What a call of \<^verbatim>\<open>step()\<close> adds to the store.\<close>

lemma step_store:
  assumes a: "after (step s rt) = (s', rt')"
  shows "\<exists>ms j. j \<le> length (filter (\<lambda>p. state (snd p) = INFECTED) (nodes s))
       \<and> (running s \<and> \<not> is_raised (step s rt) \<longrightarrow>
              j = length (filter (\<lambda>p. state (snd p) = INFECTED) (nodes s)))
       \<and> unhopped (heap rt') = unhopped (heap rt) @ ms
       \<and> map source_node ms = concat (map (round_sources (nodes s))
            (take j (map fst (filter (\<lambda>p. state (snd p) = INFECTED) (nodes s)))))
       \<and> fresh_ids (message_counter s) (message_counter s') (map msg_id ms)"
proof -
  let ?s1 = "s\<lparr>step_count := step_count s + 1\<rparr>"
  let ?inf = "filter (\<lambda>p. state (snd p) = INFECTED) (nodes s)"
  let ?ks = "map fst ?inf"
  show ?thesis
  proof (cases "\<not> running s \<or> ?ks = []")
    case True
    with a have "rt' = rt" "message_counter s' = message_counter s"
      by (auto simp: step_def Let_def split: if_splits)
    with True show ?thesis
      by (intro exI [of _ "[]"] exI [of _ 0]) (auto simp: fresh_ids_Nil)
  next
    case False
    have "\<exists>rt2. after (gossip_all ?ks ?s1 rt) = (s'\<lparr>nodes := nodes (fst (after (gossip_all ?ks ?s1 rt)))\<rparr>, rt2)
        \<and> heap rt' = heap rt2
        \<and> is_raised (step s rt) = is_raised (gossip_all ?ks ?s1 rt)"
    proof (cases "gossip_all ?ks ?s1 rt")
      case (Raised e w)
      with a False show ?thesis by (cases w) (simp add: step_def Let_def)
    next
      case (Returned w)
      obtain s2 rt2 where w: "w = (s2, rt2)" by (cases w)
      obtain ns rt3 where r: "recover_all (nodes s2) rt2 = (ns, rt3)"
        by (cases "recover_all (nodes s2) rt2")
      from a False Returned w r have "s' = s2\<lparr>nodes := ns\<rparr>" "rt' = rt3"
        by (simp_all add: step_def Let_def)
      with Returned w r recover_all_heap [OF r] False show ?thesis
        by (simp add: step_def Let_def)
    qed
    then obtain rt2 s2 where g: "after (gossip_all ?ks ?s1 rt) = (s2, rt2)"
      and s2: "s2 = s'\<lparr>nodes := nodes s2\<rparr>" and h: "heap rt' = heap rt2"
      and ir: "is_raised (step s rt) = is_raised (gossip_all ?ks ?s1 rt)"
      by (cases "after (gossip_all ?ks ?s1 rt)") auto
    have mc: "message_counter s2 = message_counter s'" by (subst s2) simp
    from gossip_all_store [OF g] obtain ms j
      where "j \<le> length ?ks" "\<not> is_raised (gossip_all ?ks ?s1 rt) \<longrightarrow> j = length ?ks"
        "unhopped (heap rt2) = unhopped (heap rt) @ ms"
        "map source_node ms = concat (map (round_sources (nodes ?s1)) (take j ?ks))"
        "fresh_ids (message_counter ?s1) (message_counter s2) (map msg_id ms)"
      by blast
    then show ?thesis
      using h ir mc by (intro exI [of _ ms] exI [of _ j]) simp
  qed
qed

lemma created_sources:
  assumes "unhopped (heap rt') = unhopped (heap rt) @ ms"
  shows "map source_node (created rt rt') = map source_node ms"
    and "map msg_id (created rt rt') = map msg_id ms"
proof -
  have l: "length (unhopped (heap rt)) = length (heap rt)" by (simp add: unhopped_def)
  have "unhopped (created rt rt') = drop (length (heap rt)) (unhopped (heap rt'))"
    by (simp add: created_def unhopped_def drop_map)
  also have "\<dots> = ms" unfolding assms using l by simp
  finally have e: "unhopped (created rt rt') = ms" .
  show "map source_node (created rt rt') = map source_node ms"
    using source_node_unhopped [of "created rt rt'"] e by simp
  show "map msg_id (created rt rt') = map msg_id ms"
    using msg_id_unhopped [of "created rt rt'"] e by simp
qed

section \<open>Uniqueness of message identifiers\<close>

lemma grows_refl: "grows s rt s rt"
  unfolding grows_def by (intro exI [of _ "[]"]) (simp add: fresh_ids_Nil)

lemma grows_trans:
  assumes "grows s rt s1 rt1" and "grows s1 rt1 s2 rt2"
  shows "grows s rt s2 rt2"
proof -
  from assms(1) obtain xs where 1: "map msg_id (heap rt1) = map msg_id (heap rt) @ xs"
    "fresh_ids (message_counter s) (message_counter s1) xs"
    unfolding grows_def by blast
  from assms(2) obtain ys where 2: "map msg_id (heap rt2) = map msg_id (heap rt1) @ ys"
    "fresh_ids (message_counter s1) (message_counter s2) ys"
    unfolding grows_def by blast
  from 1 2 have "map msg_id (heap rt2) = map msg_id (heap rt) @ (xs @ ys)" by simp
  moreover from 1 2 have "fresh_ids (message_counter s) (message_counter s2) (xs @ ys)"
    by (intro fresh_ids_append)
  ultimately show ?thesis unfolding grows_def by blast
qed

lemma step_grows:
  assumes "after (step s rt) = (s', rt')"
  shows "grows s rt s' rt'"
proof -
  from step_store [OF assms] obtain ms
    where u: "unhopped (heap rt') = unhopped (heap rt) @ ms"
      and f: "fresh_ids (message_counter s) (message_counter s') (map msg_id ms)"
    by blast
  have "map msg_id (heap rt') = map msg_id (unhopped (heap rt'))"
    by (simp only: msg_id_unhopped)
  also have "\<dots> = map msg_id (heap rt) @ map msg_id ms"
    unfolding u by (simp add: msg_id_unhopped)
  finally show ?thesis using f unfolding grows_def by blast
qed

lemma perform_grows:
  assumes "is_start_or_step c" and "perform c (s, rt) = Some out" and "after out = (s', rt')"
  shows "grows s rt s' rt'"
proof (cases c)
  case (StartGossip ids)
  with assms have "rt' = rt" "message_counter s' = message_counter s"
    by (auto simp: start_gossip_def Let_def)
  then show ?thesis
    unfolding grows_def by (intro exI [of _ "[]"]) (simp add: fresh_ids_Nil)
next
  case Step
  with assms show ?thesis by (auto intro: step_grows)
qed (use assms in auto)

lemma run_grows:
  "list_all is_start_or_step calls \<Longrightarrow> run calls (s, rt) = Some (s', rt')
     \<Longrightarrow> grows s rt s' rt'"
proof (induction calls arbitrary: s rt)
  case Nil
  then show ?case by (simp add: grows_refl)
next
  case (Cons c calls)
  from Cons.prems obtain out where p: "perform c (s, rt) = Some out"
    and r: "run calls (after out) = Some (s', rt')"
    by (auto split: option.splits)
  obtain s1 rt1 where a: "after out = (s1, rt1)" by (cases "after out")
  from Cons.prems have "grows s rt s1 rt1"
    using perform_grows [OF _ p a] by simp
  moreover have "grows s1 rt1 s' rt'"
    using Cons.prems r a by (intro Cons.IH [of s1 rt1]) simp_all
  ultimately show ?case by (rule grows_trans)
qed

lemma grows_distinct:
  assumes "grows s rt s' rt'"
  shows "distinct (map msg_id (created rt rt'))"
proof -
  from assms obtain ids where 1: "map msg_id (heap rt') = map msg_id (heap rt) @ ids"
    and 2: "fresh_ids (message_counter s) (message_counter s') ids"
    unfolding grows_def by blast
  have "map msg_id (created rt rt') = drop (length (heap rt)) (map msg_id (heap rt'))"
    by (simp add: created_def drop_map)
  also have "\<dots> = ids" unfolding 1 by simp
  finally show ?thesis using fresh_ids_distinct [OF 2] by simp
qed

text \<open>
  C3 (as the code has it): over any sequence of calls of \<^verbatim>\<open>start_gossip\<close> and
  \<^verbatim>\<open>step\<close>, from any state of the engine, the messages created have pairwise
  different identifiers.
\<close>

theorem message_ids_unique:
  "list_all is_start_or_step calls \<and> run calls (s, rt) = Some (s', rt')
     \<longrightarrow> distinct (map msg_id (created rt rt'))"
  using run_grows [of calls s rt s' rt'] grows_distinct [of s rt s' rt'] by blast

section \<open>Two runs of the example engine, with and without a reset\<close>

lemma str_int_1: "str_int 1 = ''1''"
proof -
  have "char_of (49 :: nat) = CHR ''1''" by code_simp
  then show ?thesis by (simp add: str_int_def digit_char_def str_nat_unfold)
qed

lemma run_example_reset:
  "run [StartGossip (Some [0]), Step, ResetSimulation, StartGossip (Some [0]), Step]
     (example_sim, example_runtime)
   = Some (example_stepped 1, example_runtime\<lparr>heap := [example_message 1, example_message 1]\<rparr>)"
  using step_example [of "[]"] step_example [of "[example_message 1]"]
  by (simp add: start_example reset_example example_runtime_heap)

text \<open>
  C3 (as stated) fails: \<^verbatim>\<open>reset_simulation\<close> sets the message counter back to 0,
  so the first message after a reset gets the identifier of the first message
  before it. On the example engine, the two messages created by
  \<^verbatim>\<open>start_gossip([0]); step(); reset_simulation(); start_gossip([0]); step()\<close>
  are both called \<^verbatim>\<open>msg_0_0\<close>.
\<close>

theorem message_ids_unique_counterexample:
  "map msg_id (created example_runtime (snd (the
     (run [StartGossip (Some [0]), Step, ResetSimulation, StartGossip (Some [0]), Step]
        (example_sim, example_runtime)))))
   = [''msg_0_0'', ''msg_0_0'']"
  unfolding run_example_reset
  by (simp add: created_def example_runtime_def example_message_def)

lemma step_example_both:
  "step (start_gossip (Some [0, 1]) example_sim) example_runtime
     = Returned (example_stepped_both,
         example_runtime\<lparr>heap := [example_message 1, example_message_1]\<rparr>)"
  by (simp add: step_def start_gossip_def example_sim_def example_stepped_both_def
      example_node_def example_message_def example_message_1_def infect_def reset_node_def
      gossip_step_def random_sample_def Let_def example_runtime_def time_time_def
      new_message_def deliver_one_def random_random_def receive_message_def recover_def
      str_int_0 str_int_1)

lemma run_example_both:
  "run [StartGossip (Some [0, 1]), Step] (example_sim, example_runtime)
     = Some (example_stepped_both,
         example_runtime\<lparr>heap := [example_message 1, example_message_1]\<rparr>)"
  by (simp add: step_example_both)

theorem message_ids_unique_witness:
  "list_all is_start_or_step [StartGossip (Some [0, 1]), Step]
   \<and> run [StartGossip (Some [0, 1]), Step] (example_sim, example_runtime)
       = Some (example_stepped_both,
           example_runtime\<lparr>heap := [example_message 1, example_message_1]\<rparr>)
   \<and> map msg_id (created example_runtime
         (example_runtime\<lparr>heap := [example_message 1, example_message_1]\<rparr>))
       = [''msg_0_0'', ''msg_1_1'']
   \<and> distinct (map msg_id (created example_runtime
         (example_runtime\<lparr>heap := [example_message 1, example_message_1]\<rparr>)))"
proof -
  let ?calls = "[StartGossip (Some [0, 1]), Step]"
  let ?rt = "example_runtime\<lparr>heap := [example_message 1, example_message_1]\<rparr>"
  have l: "list_all is_start_or_step ?calls" by simp
  from message_ids_unique [of ?calls example_sim example_runtime example_stepped_both ?rt]
    l run_example_both
  have "distinct (map msg_id (created example_runtime ?rt))" by blast
  moreover have "map msg_id (created example_runtime ?rt) = [''msg_0_0'', ''msg_1_1'']"
    by (simp add: created_def example_runtime_def example_message_def example_message_1_def)
  ultimately show ?thesis using l run_example_both by blast
qed

section \<open>The snapshot of infected nodes\<close>

lemma round_sources_snapshot:
  assumes "\<forall>p \<in> set ps. map_of ns (fst p) = Some (snd p)"
  shows "concat (map (round_sources ns) (map fst (filter P ps)))
     = map (\<lambda>p. node_id (snd p)) (filter (\<lambda>p. P p \<and> neighbors (snd p) \<noteq> []) ps)"
  using assms by (induction ps) (auto simp: round_sources_def)

lemma map_of_distinct_keys:
  "distinct (map fst ns) \<Longrightarrow> \<forall>p \<in> set ns. map_of ns (fst p) = Some (snd p)"
  by (induction ns) (auto simp: rev_image_eqI)

lemma round_sources_infected:
  assumes "\<forall>p \<in> set ps. map_of ns (fst p) = Some (snd p)"
  shows "set (concat (map (round_sources ns) (take j (map fst (filter P ps)))))
     \<subseteq> set (map (\<lambda>p. node_id (snd p)) (filter P ps))"
proof -
  have "set (concat (map (round_sources ns) (take j (map fst (filter P ps)))))
      \<subseteq> set (concat (map (round_sources ns) (map fst (filter P ps))))"
    using set_take_subset [of j "map fst (filter P ps)"] by auto
  also have "\<dots> \<subseteq> set (map (\<lambda>p. node_id (snd p)) (filter P ps))"
    unfolding round_sources_snapshot [OF assms] by auto
  finally show ?thesis .
qed

text \<open>
  C7: the messages created by a call of \<^verbatim>\<open>step()\<close> all originate from nodes that
  were INFECTED when the call began; when the call returns on a running engine, they
  are exactly one message per node of that snapshot that has a neighbour, in the
  order of the snapshot. A node infected during the call is not in the snapshot and
  runs no round in the call.
\<close>

theorem step_uses_snapshot:
  "distinct (map fst (nodes s)) \<longrightarrow>
     set (map source_node (created rt (snd (after (step s rt)))))
       \<subseteq> set (map (\<lambda>p. node_id (snd p)) (filter (\<lambda>p. state (snd p) = INFECTED) (nodes s)))
     \<and> (running s \<and> \<not> is_raised (step s rt) \<longrightarrow>
          map source_node (created rt (snd (after (step s rt))))
            = map (\<lambda>p. node_id (snd p))
                (filter (\<lambda>p. state (snd p) = INFECTED \<and> neighbors (snd p) \<noteq> []) (nodes s)))"
proof (intro impI conjI)
  assume d: "distinct (map fst (nodes s))"
  obtain s' rt' where a: "after (step s rt) = (s', rt')" by (cases "after (step s rt)")
  let ?inf = "filter (\<lambda>p. state (snd p) = INFECTED) (nodes s)"
  from step_store [OF a] obtain ms j
    where j: "running s \<and> \<not> is_raised (step s rt) \<longrightarrow> j = length ?inf"
      and u: "unhopped (heap rt') = unhopped (heap rt) @ ms"
      and src: "map source_node ms
          = concat (map (round_sources (nodes s)) (take j (map fst ?inf)))"
    by blast
  have c: "map source_node (created rt rt') = map source_node ms"
    using u by (rule created_sources)
  note m = map_of_distinct_keys [OF d]
  show "set (map source_node (created rt (snd (after (step s rt)))))
      \<subseteq> set (map (\<lambda>p. node_id (snd p)) ?inf)"
    unfolding a snd_conv c src by (rule round_sources_infected [OF m])
  assume "running s \<and> \<not> is_raised (step s rt)"
  with j have "take j (map fst ?inf) = map fst ?inf" by simp
  then show "map source_node (created rt (snd (after (step s rt))))
      = map (\<lambda>p. node_id (snd p))
          (filter (\<lambda>p. state (snd p) = INFECTED \<and> neighbors (snd p) \<noteq> []) (nodes s))"
    unfolding a snd_conv c src by (simp only: round_sources_snapshot [OF m])
qed

text \<open>
  On the example engine started at node 0, the step infects node 1, and the one
  message of the step is from node 0.
\<close>

theorem step_uses_snapshot_witness:
  "distinct (map fst (nodes example_started))
   \<and> running example_started
   \<and> step example_started example_runtime
       = Returned (example_stepped 0, example_runtime\<lparr>heap := [example_message 1]\<rparr>)
   \<and> map (\<lambda>p. state (snd p)) (nodes example_started) = [INFECTED, SUSCEPTIBLE]
   \<and> map source_node (created example_runtime (snd (after (step example_started example_runtime))))
       = [0]"
proof -
  have d: "distinct (map fst (nodes example_started))"
    by (simp add: example_started_def)
  have r: "running example_started" by (simp add: example_started_def)
  have st: "step example_started example_runtime
       = Returned (example_stepped 0, example_runtime\<lparr>heap := [example_message 1]\<rparr>)"
    using step_example [of "[]"] by (simp add: example_runtime_heap)
  then have nr: "\<not> is_raised (step example_started example_runtime)" by simp
  from step_uses_snapshot [of example_started example_runtime] d r nr
  have "map source_node (created example_runtime (snd (after (step example_started example_runtime))))
      = map (\<lambda>p. node_id (snd p))
          (filter (\<lambda>p. state (snd p) = INFECTED \<and> neighbors (snd p) \<noteq> [])
             (nodes example_started))"
    by blast
  also have "\<dots> = [0]"
    by (simp add: example_started_def example_node_def)
  finally show ?thesis using d r st
    by (simp add: example_started_def example_node_def)
qed

section \<open>One gossip round\<close>








lemma random_random_unfold:
  "random_random rt = (fst (random_random rt), snd (random_random rt))"
  by simp

















section \<open>The topology\<close>

lemma map_of_map_node:
  "map_of (map_node k f ns) k' = (if k' = k then map_option f (map_of ns k) else map_of ns k')"
  by (induction ns) auto

lemma is_edge_key: "is_edge ns i j \<Longrightarrow> i \<in> fst ` set ns"
  by (auto simp: is_edge_def split: option.splits dest: map_of_SomeD intro: rev_image_eqI)

lemma is_edge_add_neighbor:
  "is_edge (map_node k (add_neighbor j) ns) a b
     \<longleftrightarrow> is_edge ns a b \<or> (a = k \<and> b = j \<and> k \<in> fst ` set ns)"
proof (cases "map_of ns k")
  case None
  then have "k \<notin> fst ` set ns" by (simp add: map_of_eq_None_iff)
  with None show ?thesis
    by (auto simp: is_edge_def map_of_map_node split: option.splits)
next
  case (Some node)
  then have "k \<in> fst ` set ns" by (metis domI dom_map_of_conv_image_fst)
  with Some show ?thesis
    by (auto simp: is_edge_def map_of_map_node add_neighbor_def split: option.splits)
qed

text \<open>Linking two nodes in both directions, as both loops of the construction do.\<close>

lemma is_edge_link:
  assumes "i \<in> fst ` set ns" and "j \<in> fst ` set ns"
  shows "is_edge (map_node j (add_neighbor i) (map_node i (add_neighbor j) ns)) a b
     \<longleftrightarrow> is_edge ns a b \<or> (a = i \<and> b = j) \<or> (a = j \<and> b = i)"
  using assms by (auto simp: is_edge_add_neighbor key_set_map_node)

lemma topology_ok_link:
  assumes "topology_ok ns" and "i \<in> fst ` set ns" and "j \<in> fst ` set ns"
  shows "topology_ok (map_node j (add_neighbor i) (map_node i (add_neighbor j) ns))"
  using assms unfolding topology_ok_def
  by (simp add: is_edge_link keys_map_node)

lemma edges_link:
  assumes "i \<in> fst ` set ns" and "j \<in> fst ` set ns"
  shows "edges (map_node j (add_neighbor i) (map_node i (add_neighbor j) ns))
     = edges ns \<union> {(i, j), (j, i)}"
  using assms by (auto simp: edges_def is_edge_link)

lemma connect_pair_ok:
  assumes "topology_ok ns" and "i \<in> fst ` set ns" and "j \<in> fst ` set ns"
  shows "\<exists>ns'. connect_pair cr i j ns = Inr ns' \<and> topology_ok ns' \<and> map fst ns' = map fst ns"
proof -
  from assms(2) obtain node1 where 1: "map_of ns i = Some node1"
    by (metis domD dom_map_of_conv_image_fst)
  from assms(3) obtain node2 where 2: "map_of ns j = Some node2"
    by (metis domD dom_map_of_conv_image_fst)
  show ?thesis
    using 1 2 assms topology_ok_link [OF assms]
    by (simp add: connect_pair_def Let_def keys_map_node)
qed

lemma connect_row_ok:
  assumes "topology_ok ns" and "i \<in> fst ` set ns" and "set js \<subseteq> fst ` set ns"
  shows "\<exists>ns'. connect_row cr i js ns = Inr ns' \<and> topology_ok ns' \<and> map fst ns' = map fst ns"
  using assms
proof (induction js arbitrary: ns)
  case Nil
  then show ?case by simp
next
  case (Cons j js)
  from connect_pair_ok [OF Cons.prems(1,2), of j cr] Cons.prems(3)
  obtain ns1 where 1: "connect_pair cr i j ns = Inr ns1" "topology_ok ns1"
    "map fst ns1 = map fst ns" by auto
  then have k: "fst ` set ns1 = fst ` set ns" by (metis set_map)
  from Cons.IH [of ns1] 1 k Cons.prems(2,3)
  obtain ns' where "connect_row cr i js ns1 = Inr ns'" "topology_ok ns'"
    "map fst ns' = map fst ns1" by auto
  with 1 show ?case by simp
qed

lemma connect_rows_ok:
  assumes "topology_ok ns" and "set is \<subseteq> fst ` set ns"
    and "\<forall>i \<in> set is. set [i + 1..n - 1] \<subseteq> fst ` set ns"
  shows "\<exists>ns'. connect_rows cr n is ns = Inr ns' \<and> topology_ok ns' \<and> map fst ns' = map fst ns"
  using assms
proof (induction "is" arbitrary: ns)
  case Nil
  then show ?case by simp
next
  case (Cons i "is")
  from connect_row_ok [of ns i "[i + 1..n - 1]" cr] Cons.prems
  obtain ns1 where 1: "connect_row cr i [i + 1..n - 1] ns = Inr ns1" "topology_ok ns1"
    "map fst ns1 = map fst ns" by auto
  then have k: "fst ` set ns1 = fst ` set ns" by (metis set_map)
  from Cons.IH [of ns1] 1 k Cons.prems(2,3)
  obtain ns' where "connect_rows cr n is ns1 = Inr ns'" "topology_ok ns'"
    "map fst ns' = map fst ns1" by auto
  with 1 show ?case by simp
qed

lemma dict_set_new: "k \<notin> fst ` set ns \<Longrightarrow> dict_set k v ns = ns @ [(k, v)]"
  by (induction ns) auto

lemma initialize_nodes_loop_props:
  "distinct is \<Longrightarrow> set is \<inter> fst ` set (nodes s) = {}
     \<Longrightarrow> initialize_nodes_loop is s rt = (s', rt')
     \<Longrightarrow> map fst (nodes s') = map fst (nodes s) @ is
       \<and> (\<forall>p \<in> set (nodes s'). p \<in> set (nodes s) \<or> neighbors (snd p) = [])
       \<and> num_nodes s' = num_nodes s \<and> width s' = width s \<and> height s' = height s"
proof (induction "is" arbitrary: s rt)
  case Nil
  then show ?case by simp
next
  case (Cons i "is")
  obtain px rt1 where x: "random_uniform 50 (real_of_int (width s - 50)) rt = (px, rt1)"
    by (cases "random_uniform 50 (real_of_int (width s - 50)) rt")
  obtain py rt2 where y: "random_uniform 50 (real_of_int (height s - 50)) rt1 = (py, rt2)"
    by (cases "random_uniform 50 (real_of_int (height s - 50)) rt1")
  let ?s1 = "s\<lparr>nodes := dict_set i (GossipNode_init i px py) (nodes s)\<rparr>"
  have new: "i \<notin> fst ` set (nodes s)" using Cons.prems(2) by auto
  have n1: "nodes ?s1 = nodes s @ [(i, GossipNode_init i px py)]"
    using new by (simp add: dict_set_new)
  have rest: "initialize_nodes_loop is ?s1 rt2 = (s', rt')"
    using Cons.prems(3) x y by simp
  have "distinct is" and "set is \<inter> fst ` set (nodes ?s1) = {}"
    using Cons.prems(1,2) unfolding n1 by auto
  from Cons.IH [OF this rest] show ?case
    unfolding n1 by (auto simp: GossipNode_init_def)
qed

lemma no_edges: "\<forall>p \<in> set ns. neighbors (snd p) = [] \<Longrightarrow> \<not> is_edge ns i j"
  by (auto simp: is_edge_def split: option.splits dest!: map_of_SomeD)

text \<open>
  The traversal raises nothing but RecursionError, and that only when fewer calls
  are allowed than there are nodes left to visit; when it returns, it has visited
  the node it was called for, and what it has visited is reachable from \<open>v0\<close> when
  everything visited before and the node it was called for are.
\<close>

lemma dfs_sound:
  "topology_ok ns \<Longrightarrow> i \<in> fst ` set ns \<Longrightarrow> set visited \<subseteq> fst ` set ns
     \<Longrightarrow> \<forall>v \<in> insert i (set visited). (v0, v) \<in> (edges ns)\<^sup>*
     \<Longrightarrow> (case dfs d ns visited i of
           Inr vis \<Rightarrow> insert i (set visited) \<subseteq> set vis \<and> set vis \<subseteq> fst ` set ns
             \<and> (\<forall>v \<in> set vis. (v0, v) \<in> (edges ns)\<^sup>*)
         | Inl e \<Rightarrow> e = RecursionError \<and> d \<le> card (fst ` set ns - set visited))"
  and dfs_neighbors_sound:
  "topology_ok ns \<Longrightarrow> set js \<subseteq> fst ` set ns \<Longrightarrow> set visited \<subseteq> fst ` set ns
     \<Longrightarrow> \<forall>v \<in> set js \<union> set visited. (v0, v) \<in> (edges ns)\<^sup>*
     \<Longrightarrow> (case dfs_neighbors d ns visited js of
           Inr vis \<Rightarrow> set js \<union> set visited \<subseteq> set vis \<and> set vis \<subseteq> fst ` set ns
             \<and> (\<forall>v \<in> set vis. (v0, v) \<in> (edges ns)\<^sup>*)
         | Inl e \<Rightarrow> e = RecursionError \<and> d \<le> card (fst ` set ns - set visited))"
proof (induction d ns visited i and d ns visited js rule: dfs_dfs_neighbors.induct)
  case (1 ns visited i)
  show ?case by simp
next
  case (2 d ns visited i)
  note ok = "2.prems"(1)
  show ?case
  proof (cases "i \<in> set visited")
    case True
    with "2.prems" show ?thesis by auto
  next
    case False
    from "2.prems"(2) obtain node where node: "map_of ns i = Some node"
      by (metis domD dom_map_of_conv_image_fst)
    have nb: "\<forall>j \<in> set (neighbors node). is_edge ns i j"
      using node by (simp add: is_edge_def)
    have nbk: "set (neighbors node) \<subseteq> fst ` set ns"
      using nb ok unfolding topology_ok_def by (blast dest: is_edge_key)
    have ri: "(v0, i) \<in> (edges ns)\<^sup>*" using "2.prems"(4) by simp
    have rj: "(v0, j) \<in> (edges ns)\<^sup>*" if "j \<in> set (neighbors node)" for j
    proof -
      from nb that have "(i, j) \<in> edges ns" by (simp add: edges_def)
      with ri show ?thesis by (rule rtrancl_into_rtrancl)
    qed
    have p2: "set (visited @ [i]) \<subseteq> fst ` set ns"
      using "2.prems"(2,3) by simp
    have p3: "\<forall>v \<in> set (neighbors node) \<union> set (visited @ [i]). (v0, v) \<in> (edges ns)\<^sup>*"
      using "2.prems"(4) rj by auto
    note ih = "2.IH" [OF False node ok nbk p2 p3]
    have "fst ` set ns - set (visited @ [i]) \<subset> fst ` set ns - set visited"
      using False "2.prems"(2) by auto
    then have "card (fst ` set ns - set (visited @ [i])) < card (fst ` set ns - set visited)"
      by (intro psubset_card_mono) auto
    with ih False node show ?thesis
      by (auto split: sum.splits)
  qed
next
  case (3 d ns visited)
  then show ?case by simp
next
  case (4 d ns visited j js)
  note ok = "4.prems"(1)
  have jk: "j \<in> fst ` set ns" using "4.prems"(2) by simp
  have rj: "\<forall>v \<in> insert j (set visited). (v0, v) \<in> (edges ns)\<^sup>*"
    using "4.prems"(4) by simp
  note ih1 = "4.IH"(1) [OF ok jk "4.prems"(3) rj]
  show ?case
  proof (cases "dfs d ns visited j")
    case (Inl e)
    with ih1 show ?thesis by simp
  next
    case (Inr vis1)
    with ih1 have v1: "insert j (set visited) \<subseteq> set vis1" "set vis1 \<subseteq> fst ` set ns"
      "\<forall>v \<in> set vis1. (v0, v) \<in> (edges ns)\<^sup>*" by simp_all
    have p2: "set js \<subseteq> fst ` set ns" using "4.prems"(2) by simp
    have p4: "\<forall>v \<in> set js \<union> set vis1. (v0, v) \<in> (edges ns)\<^sup>*"
      using "4.prems"(4) v1(3) by auto
    note ih2 = "4.IH"(2) [OF Inr ok p2 v1(2) p4]
    have "fst ` set ns - set vis1 \<subseteq> fst ` set ns - set visited" using v1(1) by auto
    then have "card (fst ` set ns - set vis1) \<le> card (fst ` set ns - set visited)"
      by (intro card_mono) auto
    with ih2 Inr v1(1) show ?thesis
      by (auto split: sum.splits)
  qed
qed

lemma random_choice_member:
  "xs \<noteq> [] \<Longrightarrow> \<exists>x rt'. random_choice xs rt = Inr (x, rt') \<and> x \<in> set xs"
  by (simp add: random_choice_def)

lemma set_set_add: "set (set_add i xs) = insert i (set xs)"
  by (auto simp: set_add_def)

text \<open>
  The repair loop returns, keeps the neighbour relation symmetric and makes every
  node it is given reachable from \<open>v0\<close>, when the nodes visited before are.
\<close>

lemma repair_ok:
  "topology_ok ns \<Longrightarrow> visited \<noteq> [] \<Longrightarrow> set us \<subseteq> fst ` set ns
     \<Longrightarrow> set visited \<subseteq> fst ` set ns
     \<Longrightarrow> \<forall>v \<in> set visited. (v0, v) \<in> (edges ns)\<^sup>*
     \<Longrightarrow> \<exists>ns' rt'. repair us ns visited rt = Inr (ns', rt')
           \<and> topology_ok ns' \<and> map fst ns' = map fst ns
           \<and> (\<forall>v \<in> set visited \<union> set us. (v0, v) \<in> (edges ns')\<^sup>*)"
proof (induction us arbitrary: ns visited rt)
  case Nil
  then show ?case by simp
next
  case (Cons u us)
  from random_choice_member [OF Cons.prems(2), of rt] obtain target rt1
    where ch: "random_choice visited rt = Inr (target, rt1)" and tv: "target \<in> set visited"
    by blast
  have uk: "u \<in> fst ` set ns" using Cons.prems(3) by simp
  have tk: "target \<in> fst ` set ns" using tv Cons.prems(4) by blast
  let ?ns1 = "map_node u (add_neighbor target) ns"
  let ?ns2 = "map_node target (add_neighbor u) ?ns1"
  have k1: "fst ` set ?ns1 = fst ` set ns" by (rule key_set_map_node)
  have k2: "map fst ?ns2 = map fst ns" by (simp add: keys_map_node)
  then have k2s: "fst ` set ?ns2 = fst ` set ns" by (metis set_map)
  have ok2: "topology_ok ?ns2" using Cons.prems(1) uk tk by (rule topology_ok_link)
  have e2: "edges ?ns2 = edges ns \<union> {(u, target), (target, u)}"
    using uk tk by (rule edges_link)
  have mono: "(edges ns)\<^sup>* \<subseteq> (edges ?ns2)\<^sup>*"
    by (rule rtrancl_mono) (auto simp: e2)
  have rv: "\<forall>v \<in> set (set_add u visited). (v0, v) \<in> (edges ?ns2)\<^sup>*"
  proof
    fix v assume "v \<in> set (set_add u visited)"
    then consider "v = u" | "v \<in> set visited" by (auto simp: set_set_add)
    then show "(v0, v) \<in> (edges ?ns2)\<^sup>*"
    proof cases
      case 1
      have "(v0, target) \<in> (edges ?ns2)\<^sup>*" using Cons.prems(5) tv mono by blast
      moreover have "(target, u) \<in> edges ?ns2" by (simp add: e2)
      ultimately show ?thesis unfolding 1 by (rule rtrancl_into_rtrancl)
    next
      case 2
      with Cons.prems(5) mono show ?thesis by blast
    qed
  qed
  have p2: "set_add u visited \<noteq> []" using Cons.prems(2) by (simp add: set_add_def)
  have p3: "set us \<subseteq> fst ` set ?ns2" using Cons.prems(3) k2s by simp
  have p4: "set (set_add u visited) \<subseteq> fst ` set ?ns2"
    using Cons.prems(4) uk k2s by (simp add: set_set_add)
  from Cons.IH [OF ok2 p2 p3 p4 rv, of rt1] obtain ns' rt'
    where r: "repair us ?ns2 (set_add u visited) rt1 = Inr (ns', rt')"
      and ok': "topology_ok ns'" and k': "map fst ns' = map fst ?ns2"
      and rv': "\<forall>v \<in> set (set_add u visited) \<union> set us. (v0, v) \<in> (edges ns')\<^sup>*"
    by blast
  have "repair (u # us) ns visited rt = Inr (ns', rt')"
    using Cons.prems(2) ch uk tk k1 r by (simp add: Let_def)
  moreover have "map fst ns' = map fst ns" using k' k2 by simp
  moreover have "\<forall>v \<in> set visited \<union> set (u # us). (v0, v) \<in> (edges ns')\<^sup>*"
    using rv' by (auto simp: set_set_add)
  ultimately show ?case using ok' by blast
qed

lemma sym_edges: "topology_ok ns \<Longrightarrow> sym (edges ns)"
  by (auto simp: topology_ok_def edges_def sym_def)

text \<open>
  The constructor: it raises nothing but RecursionError, and that only when the
  interpreter allows no more nested calls than there are nodes; when it returns,
  the engine has the nodes 0 to \<open>n - 1\<close>, a symmetric neighbour relation, and every
  node is reachable from node 0.
\<close>

lemma constructor_cases:
  "case GossipSimulator_init limit n w h rt of
     Inr (s, rt') \<Rightarrow> map fst (nodes s) = [0..n - 1] \<and> topology_ok (nodes s)
       \<and> num_nodes s = n
       \<and> (\<forall>v \<in> set [0..n - 1]. (0, v) \<in> (edges (nodes s))\<^sup>*)
   | Inl e \<Rightarrow> e = RecursionError \<and> int limit \<le> n"
proof -
  let ?s0 = "\<lparr>num_nodes = n, width = w, height = h, nodes = [], running = False,
      step_count = 0, message_counter = 0, gossip_fanout = 3,
      transmission_probability = 8 / 10, max_hop_count = 10, simulation_speed = 1\<rparr>"
  obtain s1 rt1 where i: "initialize_nodes ?s0 rt = (s1, rt1)"
    by (cases "initialize_nodes ?s0 rt")
  then have il: "initialize_nodes_loop [0..n - 1] ?s0 rt = (s1, rt1)"
    by (simp add: initialize_nodes_def)
  have "distinct [0..n - 1]" and "set [0..n - 1] \<inter> fst ` set (nodes ?s0) = {}" by simp_all
  from initialize_nodes_loop_props [OF this il]
  have k1: "map fst (nodes s1) = [0..n - 1]"
    and e1: "\<forall>p \<in> set (nodes s1). neighbors (snd p) = []"
    and nn: "num_nodes s1 = n" by simp_all
  have ks1: "fst ` set (nodes s1) = {0..n - 1}" using k1 by (metis set_map set_upto)
  have ok1: "topology_ok (nodes s1)"
    unfolding topology_ok_def using k1 no_edges [OF e1] by simp
  let ?cr = "real_of_int (min (width s1) (height s1)) * (15 / 100)"
  have "set [0..n - 1] \<subseteq> fst ` set (nodes s1)"
    and "\<forall>i \<in> set [0..n - 1]. set [i + 1..n - 1] \<subseteq> fst ` set (nodes s1)"
    unfolding ks1 by auto
  from connect_rows_ok [OF ok1 this, of ?cr] obtain ns2
    where c: "connect_rows ?cr n [0..n - 1] (nodes s1) = Inr ns2"
      and ok2: "topology_ok ns2" and k2: "map fst ns2 = [0..n - 1]"
    using k1 by auto
  have ks2: "fst ` set ns2 = {0..n - 1}" using k2 by (metis set_map set_upto)
  have init: "GossipSimulator_init limit n w h rt
      = ensure_connectivity limit (s1\<lparr>nodes := ns2\<rparr>) rt1"
    using i c nn by (simp add: GossipSimulator_init_def build_network_topology_def Let_def)
  show ?thesis
  proof (cases "n \<le> 0")
    case True
    then have "ns2 = []" using k2 by simp
    with True nn show ?thesis
      unfolding init by (simp add: ensure_connectivity_def topology_ok_def is_edge_def)
  next
    case False
    then have n: "1 \<le> n" by simp
    have ne2: "ns2 \<noteq> []" using ks2 n by auto
    have z: "0 \<in> fst ` set ns2" using ks2 n by simp
    have "set [] \<subseteq> fst ` set ns2" by simp
    moreover have "\<forall>v \<in> insert 0 (set []). (0 :: int, v) \<in> (edges ns2)\<^sup>*" by simp
    ultimately have d: "case dfs limit ns2 [] 0 of
           Inr vis \<Rightarrow> insert 0 (set []) \<subseteq> set vis \<and> set vis \<subseteq> fst ` set ns2
             \<and> (\<forall>v \<in> set vis. (0, v) \<in> (edges ns2)\<^sup>*)
         | Inl e \<Rightarrow> e = RecursionError \<and> limit \<le> card (fst ` set ns2 - set [])"
      by (rule dfs_sound [OF ok2 z])
    show ?thesis
    proof (cases "dfs limit ns2 [] 0")
      case (Inl e)
      with d have "e = RecursionError" and "limit \<le> card (fst ` set ns2)" by simp_all
      then have "int limit \<le> n" unfolding ks2 using n by simp
      with Inl ne2 \<open>e = RecursionError\<close> show ?thesis
        unfolding init by (simp add: ensure_connectivity_def)
    next
      case (Inr vis)
      with d have v0: "0 \<in> set vis" and vk: "set vis \<subseteq> fst ` set ns2"
        and vr: "\<forall>v \<in> set vis. (0, v) \<in> (edges ns2)\<^sup>*" by simp_all
      have vne: "vis \<noteq> []" using v0 by auto
      let ?us = "filter (\<lambda>i. i \<notin> set vis) [0..n - 1]"
      have "set ?us \<subseteq> fst ` set ns2" unfolding ks2 by auto
      then obtain ns3 rt' where r: "repair ?us ns2 vis rt1 = Inr (ns3, rt')"
        and ok3: "topology_ok ns3" and k3: "map fst ns3 = map fst ns2"
        and r3: "\<forall>v \<in> set vis \<union> set ?us. (0, v) \<in> (edges ns3)\<^sup>*"
        using repair_ok [OF ok2 vne _ vk vr, of ?us rt1] by blast
      have "GossipSimulator_init limit n w h rt = Inr (s1\<lparr>nodes := ns3\<rparr>, rt')"
        unfolding init using Inr r ne2 nn by (simp add: ensure_connectivity_def Let_def)
      moreover have "\<forall>v \<in> set [0..n - 1]. (0, v) \<in> (edges ns3)\<^sup>*"
        using r3 by auto
      ultimately show ?thesis using ok3 k3 k2 nn by simp
    qed
  qed
qed

lemma symmetric_neighbors_ok:
  assumes "topology_ok ns"
  shows "symmetric_neighbors ns"
  unfolding symmetric_neighbors_def list_all_iff
proof (intro ballI)
  fix p j assume p: "p \<in> set ns" and j: "j \<in> set (neighbors (snd p))"
  from assms have "distinct (map fst ns)" by (simp add: topology_ok_def)
  from map_of_distinct_keys [OF this] p have "map_of ns (fst p) = Some (snd p)" by blast
  with j have "is_edge ns (fst p) j" by (simp add: is_edge_def)
  with assms show "is_edge ns j (fst p)" by (simp add: topology_ok_def)
qed

lemma connected_from_origin:
  assumes ok: "topology_ok ns" and r: "\<forall>v \<in> fst ` set ns. (v0, v) \<in> (edges ns)\<^sup>*"
    and i: "i \<in> fst ` set ns" and j: "j \<in> fst ` set ns"
  shows "(i, j) \<in> (edges ns)\<^sup>*"
proof -
  have "sym ((edges ns)\<^sup>*)" using sym_edges [OF ok] by (rule sym_rtrancl)
  with r i have "(i, v0) \<in> (edges ns)\<^sup>*" by (meson symD)
  moreover from r j have "(v0, j) \<in> (edges ns)\<^sup>*" by blast
  ultimately show ?thesis by (rule rtrancl_trans)
qed

lemma neighbor_of_connected:
  assumes ok: "topology_ok ns" and p: "p \<in> set ns"
    and ij: "(fst p, j) \<in> (edges ns)\<^sup>*" and ne: "fst p \<noteq> j"
  shows "neighbors (snd p) \<noteq> []"
proof -
  from ij ne obtain b where "(fst p, b) \<in> edges ns"
    by (auto elim: converse_rtranclE)
  then have e: "is_edge ns (fst p) b" by (simp add: edges_def)
  from ok have "distinct (map fst ns)" by (simp add: topology_ok_def)
  from map_of_distinct_keys [OF this] p have "map_of ns (fst p) = Some (snd p)" by blast
  with e show ?thesis by (auto simp: is_edge_def)
qed

text \<open>
  C5: for every node count of at least 2, whatever the width, the height and the
  random numbers drawn: when the constructor returns, the engine has the nodes 0 to
  \<open>n - 1\<close>, the neighbour relation is symmetric, every node has a neighbour and
  every node is reachable from every node. The constructor returns whenever the
  interpreter allows more nested calls of \<^verbatim>\<open>dfs\<close> than there are nodes, and the
  only exception it can raise is the RecursionError of a deeper traversal.
\<close>

theorem topology_connected:
  "2 \<le> n \<longrightarrow>
     (case GossipSimulator_init limit n w h rt of
        Inr (s, rt') \<Rightarrow>
          map fst (nodes s) = [0..n - 1]
          \<and> symmetric_neighbors (nodes s)
          \<and> list_all (\<lambda>p. neighbors (snd p) \<noteq> []) (nodes s)
          \<and> connected_topology (nodes s)
      | Inl e \<Rightarrow> e = RecursionError \<and> int limit \<le> n)"
proof
  assume n: "2 \<le> n"
  show "case GossipSimulator_init limit n w h rt of
        Inr (s, rt') \<Rightarrow>
          map fst (nodes s) = [0..n - 1]
          \<and> symmetric_neighbors (nodes s)
          \<and> list_all (\<lambda>p. neighbors (snd p) \<noteq> []) (nodes s)
          \<and> connected_topology (nodes s)
      | Inl e \<Rightarrow> e = RecursionError \<and> int limit \<le> n"
  proof (cases "GossipSimulator_init limit n w h rt")
    case (Inl e)
    with constructor_cases [of limit n w h rt] show ?thesis by simp
  next
    case (Inr res)
    obtain s rt' where res: "res = (s, rt')" by (cases res)
    from constructor_cases [of limit n w h rt] Inr res
    have k: "map fst (nodes s) = [0..n - 1]" and ok: "topology_ok (nodes s)"
      and r: "\<forall>v \<in> set [0..n - 1]. (0, v) \<in> (edges (nodes s))\<^sup>*"
      by simp_all
    have ks: "fst ` set (nodes s) = set [0..n - 1]" using k by (metis set_map)
    then have r': "\<forall>v \<in> fst ` set (nodes s). (0, v) \<in> (edges (nodes s))\<^sup>*"
      using r by simp
    note conn = connected_from_origin [OF ok r']
    have "connected_topology (nodes s)"
      unfolding connected_topology_def list_all_iff by (auto intro: conn)
    moreover have "list_all (\<lambda>p. neighbors (snd p) \<noteq> []) (nodes s)"
      unfolding list_all_iff
    proof
      fix p assume p: "p \<in> set (nodes s)"
      then have i: "fst p \<in> fst ` set (nodes s)" by simp
      define j :: int where "j = (if fst p = 0 then 1 else 0)"
      have "j \<in> fst ` set (nodes s)" unfolding ks j_def using n by simp
      from conn [OF i this] have "(fst p, j) \<in> (edges (nodes s))\<^sup>*" .
      moreover have "fst p \<noteq> j" by (simp add: j_def)
      ultimately show "neighbors (snd p) \<noteq> []" by (rule neighbor_of_connected [OF ok p])
    qed
    ultimately show ?thesis
      using Inr res k symmetric_neighbors_ok [OF ok] by simp
  qed
qed

text \<open>
  The engine of two nodes: both nodes are placed at the same point, so they are
  linked by the distance test, and three nested calls are enough for the traversal.
\<close>

theorem topology_connected_witness:
  "(2 :: int) \<le> 2
   \<and> GossipSimulator_init 3 2 800 600 example_runtime = Inr (example_sim, example_runtime)
   \<and> map (\<lambda>p. neighbors (snd p)) (nodes example_sim) = [[1], [0]]
   \<and> symmetric_neighbors (nodes example_sim)
   \<and> connected_topology (nodes example_sim)"
proof -
  have c: "GossipSimulator_init 3 2 800 600 example_runtime = Inr (example_sim, example_runtime)"
    using example_constructed [of 0] by (simp add: numeral_3_eq_3)
  from topology_connected [of 2 3 800 600 example_runtime]
  have "symmetric_neighbors (nodes example_sim) \<and> connected_topology (nodes example_sim)"
    unfolding c by simp
  moreover have "map (\<lambda>p. neighbors (snd p)) (nodes example_sim) = [[1], [0]]"
    by (simp add: example_sim_def example_node_def)
  ultimately show ?thesis using c by simp
qed

end
